theory Spec2Isabelle
  imports
    Main
    "HOL-Library.Char_ord"
    "HOL-Library.List_Lexorder"
    "HOL-Library.Option_ord"
    "HOL-Library.Product_Lexorder"
    "HOL-Library.Multiset"
begin

section \<open>The post store of posts.js\<close>

text \<open>
  One row of the table \<open>posts\<close> (posts.js, lines 39 to 49). The column \<open>id\<close> is the
  field \<open>post_id\<close> (\<open>id\<close> is the identity function of HOL). \<open>title\<close> is declared
  \<open>TEXT NOT NULL\<close>; the other text columns may hold NULL, which is \<open>None\<close> here.
\<close>

record post =
  post_id :: int
  user_id :: int
  title :: string
  description :: "string option"
  url :: "string option"
  scheduledAt :: "string option"
  sent :: int

text \<open>
  The two columns of the table \<open>users\<close> (users.js) that posts.js reads for a delivery.
  The users database is written by users.js only, so the handlers of posts.js take it
  as an argument: a lookup by user id (\<open>SELECT ... FROM users WHERE id = ?\<close>).
\<close>

record user =
  telegram_token :: "string option"
  channel_id :: "string option"

type_synonym usersDb = "int \<Rightarrow> user option"

text \<open>
  A field of a JSON request body as the handlers see it after destructuring:
  missing (\<open>undefined\<close>), an explicit \<open>null\<close>, or a value.
\<close>

datatype 'a field = Undefined | Null | Value 'a

text \<open>
  Binding a field to a \<open>?\<close> of an SQL statement: the driver leaves \<open>undefined\<close>
  unbound, and an unbound parameter is NULL, as \<open>null\<close> is.
\<close>

fun bind_param :: "'a field \<Rightarrow> 'a option" where
  "bind_param Undefined = None"
| "bind_param Null = None"
| "bind_param (Value v) = Some v"

text \<open>The operator \<open>a ?? b\<close> against a column value \<open>b\<close>.\<close>

fun nullish :: "'a field \<Rightarrow> 'a option \<Rightarrow> 'a option" where
  "nullish (Value v) old = Some v"
| "nullish Undefined old = old"
| "nullish Null old = old"

subsection \<open>The gateway and the observers\<close>

text \<open>
  What is handed to the Telegram bot: a photo read from a file of the upload directory
  (\<open>fs.createReadStream\<close>), a photo given by its URL, or a text message. Each call
  carries the bot token, the channel and the caption.
\<close>

datatype media = Stream string | Link string

datatype gateway_call =
  SendPhoto "string option" "string option" media string
| SendMessage "string option" "string option" string

text \<open>
  The gateway is outside the program: whether a call succeeds (the promise resolves)
  or fails (it rejects) is given by an oracle, which may depend on how many calls were
  made before. The state keeps the trace of the calls: the id of the post the handler
  was delivering, the call, and its outcome.
\<close>

type_synonym gateway = "nat \<Rightarrow> gateway_call \<Rightarrow> bool"

record attempt =
  for_post :: int
  request :: gateway_call
  delivered_ok :: bool

datatype message = Posts_updated

text \<open>A connected WebSocket client: its \<open>readyState\<close> and what was sent to it.\<close>

record client =
  readyState :: nat
  inbox :: "message list"

record state =
  posts :: "post list"
  seq :: int
  uploads :: "string set"
  clients :: "client list"
  channel_log :: "attempt list"

text \<open>\<open>broadcast\<close> (lines 77 to 82): every client whose \<open>readyState\<close> is 1 is sent the message.\<close>

definition broadcast :: "message \<Rightarrow> state \<Rightarrow> state" where
  "broadcast m s =
     s\<lparr>clients := map (\<lambda>c. if readyState c = 1 then c\<lparr>inbox := inbox c @ [m]\<rparr> else c) (clients s)\<rparr>"

subsection \<open>Strings and paths\<close>

fun starts_with :: "string \<Rightarrow> string \<Rightarrow> bool" where
  "starts_with s [] = True"
| "starts_with [] (p # ps) = False"
| "starts_with (c # cs) (p # ps) = (c = p \<and> starts_with cs ps)"

text \<open>\<open>s.includes(p)\<close> of JavaScript: \<open>p\<close> occurs in \<open>s\<close>.\<close>

fun includes_str :: "string \<Rightarrow> string \<Rightarrow> bool" where
  "includes_str [] p = starts_with [] p"
| "includes_str (c # cs) p = (starts_with (c # cs) p \<or> includes_str cs p)"

text \<open>\<open>path.basename\<close>: the last segment of a path, trailing separators ignored.\<close>

definition basename :: "string \<Rightarrow> string" where
  "basename p =
     rev (takeWhile (\<lambda>c. c \<noteq> CHR ''/'') (dropWhile (\<lambda>c. c = CHR ''/'') (rev p)))"

text \<open>
  SQLite compares two TEXT values byte by byte, a proper prefix being smaller: that is
  the order \<open>\<le>\<close> of \<open>string\<close> (lexicographic, over the order of \<open>char\<close> by code).
  In an \<open>ORDER BY\<close>, NULL comes before every text: the order of \<open>string option\<close>.
\<close>

subsection \<open>The SQL statements\<close>

text \<open>\<open>SELECT * FROM posts WHERE id = ?\<close> through \<open>db.get\<close>: the first row, or nothing.\<close>

definition select_post :: "int \<Rightarrow> post list \<Rightarrow> post option" where
  "select_post i ps = find (\<lambda>p. post_id p = i) ps"

text \<open>\<open>UPDATE posts SET ... WHERE id = ?\<close>.\<close>

definition update_post :: "(post \<Rightarrow> post) \<Rightarrow> int \<Rightarrow> post list \<Rightarrow> post list" where
  "update_post f i ps = map (\<lambda>p. if post_id p = i then f p else p) ps"

text \<open>
  \<open>DELETE FROM posts WHERE id = ?\<close> (lines 288, 406 and 512), the terminal step of a
  delivery. \<open>db.run\<close> resolves with the number of rows the statement changed; it does
  not reject when no row matches.
\<close>

definition markDelivered :: "int \<Rightarrow> state \<Rightarrow> nat \<times> state" where
  "markDelivered i s =
     (length (filter (\<lambda>p. post_id p = i) (posts s)),
      s\<lparr>posts := filter (\<lambda>p. post_id p \<noteq> i) (posts s)\<rparr>)"

text \<open>
  The candidate query of the scan (lines 471 to 474):
  \<open>SELECT * FROM posts WHERE sent = 0 AND scheduledAt IS NOT NULL AND scheduledAt <= ?\<close>.
\<close>

definition due :: "string \<Rightarrow> post \<Rightarrow> bool" where
  "due now p =
     (sent p = 0 \<and> (case scheduledAt p of None \<Rightarrow> False | Some t \<Rightarrow> t \<le> now))"

definition claimDueCandidates :: "string \<Rightarrow> state \<Rightarrow> post list" where
  "claimDueCandidates now s = filter (due now) (posts s)"

subsection \<open>Access control\<close>

text \<open>
  The handlers resolve the requester with \<open>getRequesterId\<close>, which reads the request
  and the users database and changes nothing. Its result, a user id or \<open>null\<close>, is the
  argument \<open>requester\<close> of every handler below. A response is the JSON body of a
  success or the HTTP status of a failure.
\<close>

datatype response =
  Ok_json
| Ok_id int
| Ok_posts "post list"
| Ok_url string
| Error_status nat

text \<open>
  \<open>verifyOwnershipOrReject\<close> (lines 131 to 142): the response it has sent, or
  nothing when the requester owns the post.
\<close>

definition verifyOwnershipOrReject :: "post \<Rightarrow> int option \<Rightarrow> response option" where
  "verifyOwnershipOrReject p requester =
     (case requester of
        None \<Rightarrow> Some (Error_status 400)
      | Some r \<Rightarrow> if user_id p \<noteq> r then Some (Error_status 403) else None)"

subsection \<open>The handlers that edit the store\<close>

text \<open>
  \<open>POST /\<close> (lines 146 to 167). The id of the new row is the one \<open>AUTOINCREMENT\<close>
  gives: one more than the largest id the table ever used. A NULL title violates
  \<open>NOT NULL\<close>: the statement throws and the handler answers 500.
\<close>

definition create ::
  "int option \<Rightarrow> int \<Rightarrow> string field \<Rightarrow> string field \<Rightarrow> string field \<Rightarrow> state
     \<Rightarrow> response \<times> state" where
  "create requester userId ttl descr link s =
     (case requester of
        None \<Rightarrow> (Error_status 400, s)
      | Some r \<Rightarrow>
          if userId \<noteq> r then (Error_status 403, s)
          else (case bind_param ttl of
                  None \<Rightarrow> (Error_status 500, s)
                | Some t \<Rightarrow>
                    let lastID = seq s + 1;
                        row = \<lparr>post_id = lastID, user_id = userId, title = t,
                               description = bind_param descr, url = bind_param link,
                               scheduledAt = None, sent = 0\<rparr>
                    in (Ok_id lastID,
                        broadcast Posts_updated (s\<lparr>posts := posts s @ [row], seq := lastID\<rparr>))))"

text \<open>
  \<open>POST /upload\<close> (lines 170 to 185): the upload middleware has stored the file,
  under the name it chose, before the handler runs; \<open>None\<close> is a request without a file.
  The answer holds the path of the file's url.
\<close>

definition upload :: "int option \<Rightarrow> string option \<Rightarrow> state \<Rightarrow> response \<times> state" where
  "upload requester file s =
     (let s1 = (case file of None \<Rightarrow> s | Some f \<Rightarrow> s\<lparr>uploads := insert f (uploads s)\<rparr>)
      in case requester of
           None \<Rightarrow> (Error_status 400, s1)
         | Some r \<Rightarrow>
             (case file of
                None \<Rightarrow> (Error_status 400, s1)
              | Some f \<Rightarrow> (Ok_url (''/uploads/'' @ f), s1)))"

text \<open>
  The file of the upload directory that a post's \<open>url\<close> names, when the url holds
  \<open>/uploads/\<close> (\<open>post.url?.includes("/uploads/")\<close>, then \<open>path.basename\<close>).
\<close>

definition local_file :: "post \<Rightarrow> string option" where
  "local_file p =
     (case url p of
        None \<Rightarrow> None
      | Some u \<Rightarrow> if includes_str u ''/uploads/'' then Some (basename u) else None)"

text \<open>\<open>if (fs.existsSync(path)) fs.unlinkSync(path)\<close>.\<close>

definition unlink_if_exists :: "string option \<Rightarrow> state \<Rightarrow> state" where
  "unlink_if_exists f s =
     (case f of None \<Rightarrow> s | Some n \<Rightarrow> s\<lparr>uploads := uploads s - {n}\<rparr>)"

text \<open>\<open>PUT /:id\<close> (lines 238 to 270).\<close>

definition update ::
  "int option \<Rightarrow> int \<Rightarrow> string field \<Rightarrow> string field \<Rightarrow> string field \<Rightarrow> string field
     \<Rightarrow> state \<Rightarrow> response \<times> state" where
  "update requester i ttl descr link sched s =
     (case select_post i (posts s) of
        None \<Rightarrow> (Error_status 404, s)
      | Some p \<Rightarrow>
          (case verifyOwnershipOrReject p requester of
             Some r \<Rightarrow> (r, s)
           | None \<Rightarrow>
               let replaced = (case link of
                                 Value u \<Rightarrow> u \<noteq> [] \<and> Some u \<noteq> url p
                               | Undefined \<Rightarrow> False
                               | Null \<Rightarrow> False);
                   s1 = (if replaced then unlink_if_exists (local_file p) s else s);
                   change = (\<lambda>row. row\<lparr>
                       title := (case ttl of Value t \<Rightarrow> t | Undefined \<Rightarrow> title p | Null \<Rightarrow> title p),
                       description := nullish descr (description p),
                       url := (case link of Undefined \<Rightarrow> url p | Null \<Rightarrow> None | Value u \<Rightarrow> Some u),
                       scheduledAt := nullish sched (scheduledAt p)\<rparr>)
               in (Ok_json,
                   broadcast Posts_updated (s1\<lparr>posts := update_post change i (posts s1)\<rparr>))))"

text \<open>\<open>DELETE /:id\<close> (lines 273 to 294).\<close>

definition delete_post :: "int option \<Rightarrow> int \<Rightarrow> state \<Rightarrow> response \<times> state" where
  "delete_post requester i s =
     (case select_post i (posts s) of
        None \<Rightarrow> (Error_status 404, s)
      | Some p \<Rightarrow>
          (case verifyOwnershipOrReject p requester of
             Some r \<Rightarrow> (r, s)
           | None \<Rightarrow>
               let s1 = unlink_if_exists (local_file p) s
               in (Ok_json, broadcast Posts_updated (snd (markDelivered i s1)))))"

text \<open>\<open>DELETE /:id/image\<close> (lines 297 to 318).\<close>

definition delete_image :: "int option \<Rightarrow> int \<Rightarrow> state \<Rightarrow> response \<times> state" where
  "delete_image requester i s =
     (case select_post i (posts s) of
        None \<Rightarrow> (Error_status 404, s)
      | Some p \<Rightarrow>
          (case verifyOwnershipOrReject p requester of
             Some r \<Rightarrow> (r, s)
           | None \<Rightarrow>
               let s1 = unlink_if_exists (local_file p) s
               in (Ok_json,
                   broadcast Posts_updated
                     (s1\<lparr>posts := update_post (\<lambda>row. row\<lparr>url := None\<rparr>) i (posts s1)\<rparr>))))"

text \<open>\<open>POST /schedulePost/:id\<close> (lines 321 to 340).\<close>

definition schedulePost :: "int option \<Rightarrow> int \<Rightarrow> string field \<Rightarrow> state \<Rightarrow> response \<times> state" where
  "schedulePost requester i sched s =
     (case select_post i (posts s) of
        None \<Rightarrow> (Error_status 404, s)
      | Some p \<Rightarrow>
          (case verifyOwnershipOrReject p requester of
             Some r \<Rightarrow> (r, s)
           | None \<Rightarrow>
               (Ok_json,
                broadcast Posts_updated
                  (s\<lparr>posts := update_post
                       (\<lambda>row. row\<lparr>scheduledAt := bind_param sched, sent := 0\<rparr>) i (posts s)\<rparr>))))"

text \<open>\<open>DELETE /schedulePost/:id\<close> (lines 342 to 357).\<close>

definition cancelSchedule :: "int option \<Rightarrow> int \<Rightarrow> state \<Rightarrow> response \<times> state" where
  "cancelSchedule requester i s =
     (case select_post i (posts s) of
        None \<Rightarrow> (Error_status 404, s)
      | Some p \<Rightarrow>
          (case verifyOwnershipOrReject p requester of
             Some r \<Rightarrow> (r, s)
           | None \<Rightarrow>
               (Ok_json,
                broadcast Posts_updated
                  (s\<lparr>posts := update_post (\<lambda>row. row\<lparr>scheduledAt := None\<rparr>) i (posts s)\<rparr>))))"

subsection \<open>Listing an owner's posts\<close>

text \<open>
  The query of \<open>GET /user/:userId\<close> (lines 204 to 215):
  \<open>ORDER BY CASE WHEN scheduledAt IS NULL THEN 1 ELSE 0 END, datetime(scheduledAt) ASC, id DESC\<close>.
  \<open>datetime\<close> is the SQL function of SQLite, an argument here: it gives the normalised
  text of a time, or NULL when its argument is not one; \<open>datetime(NULL)\<close> is NULL.
  Descending \<open>id\<close> is ascending \<open>- id\<close>.
\<close>

definition order_key :: "(string \<Rightarrow> string option) \<Rightarrow> post \<Rightarrow> nat \<times> string option \<times> int" where
  "order_key datetime p =
     (if scheduledAt p = None then 1 else 0,
      Option.bind (scheduledAt p) datetime,
      - post_id p)"

definition select_by_owner :: "(string \<Rightarrow> string option) \<Rightarrow> int \<Rightarrow> state \<Rightarrow> post list" where
  "select_by_owner datetime userId s =
     sort_key (order_key datetime) (filter (\<lambda>p. user_id p = userId) (posts s))"

definition listByOwner ::
  "(string \<Rightarrow> string option) \<Rightarrow> int option \<Rightarrow> int \<Rightarrow> state \<Rightarrow> response" where
  "listByOwner datetime requester userId s =
     (case requester of
        None \<Rightarrow> Error_status 400
      | Some r \<Rightarrow>
          if userId \<noteq> r then Error_status 403
          else Ok_posts (select_by_owner datetime userId s))"

text \<open>
  The order that the \<open>ORDER BY\<close> of the listing gives: scheduled posts before
  unscheduled ones; scheduled posts by ascending \<open>datetime(scheduledAt)\<close>, and newest
  (largest id) first where that is equal; unscheduled posts newest first.
\<close>

definition listed_before :: "(string \<Rightarrow> string option) \<Rightarrow> post \<Rightarrow> post \<Rightarrow> bool" where
  "listed_before datetime p q =
     (case scheduledAt p of
        Some a \<Rightarrow>
          (case scheduledAt q of
             Some b \<Rightarrow> datetime a < datetime b
                       \<or> (datetime a = datetime b \<and> post_id q \<le> post_id p)
           | None \<Rightarrow> True)
      | None \<Rightarrow>
          (case scheduledAt q of
             Some b \<Rightarrow> False
           | None \<Rightarrow> post_id q \<le> post_id p))"

section \<open>Timestamps\<close>

text \<open>
  The program keeps a time as the text the client sent, and takes \<open>now\<close> from
  \<open>Date.toISOString\<close>: four digits of the year, month, day, hour, minute, second and
  three digits of the millisecond, as \<open>YYYY-MM-DDTHH:MM:SS.sssZ\<close>. A shape is a list of
  runs of digits and of fixed texts; \<open>fields\<close> reads the numbers of a text of that shape.
\<close>

definition is_digit :: "char \<Rightarrow> bool" where
  "is_digit c = (CHR ''0'' \<le> c \<and> c \<le> CHR ''9'')"

definition digit_val :: "char \<Rightarrow> nat" where
  "digit_val c = of_char c - 48"

fun number :: "string \<Rightarrow> nat" where
  "number [] = 0"
| "number (c # cs) = digit_val c * 10 ^ length cs + number cs"

datatype part = Digits nat | Lit string

fun has_shape :: "part list \<Rightarrow> string \<Rightarrow> bool" where
  "has_shape [] t = (t = [])"
| "has_shape (Digits n # ps) t =
     (n \<le> length t \<and> list_all is_digit (take n t) \<and> has_shape ps (drop n t))"
| "has_shape (Lit l # ps) t =
     (take (length l) t = l \<and> has_shape ps (drop (length l) t))"

fun fields :: "part list \<Rightarrow> string \<Rightarrow> nat list" where
  "fields [] t = []"
| "fields (Digits n # ps) t = number (take n t) # fields ps (drop n t)"
| "fields (Lit l # ps) t = fields ps (drop (length l) t)"

fun shape_length :: "part list \<Rightarrow> nat" where
  "shape_length [] = 0"
| "shape_length (Digits n # ps) = n + shape_length ps"
| "shape_length (Lit l # ps) = length l + shape_length ps"

text \<open>The shape of \<open>toISOString\<close>, and the same time written without the milliseconds.\<close>

definition iso_shape :: "part list" where
  "iso_shape =
     [Digits 4, Lit ''-'', Digits 2, Lit ''-'', Digits 2, Lit ''T'',
      Digits 2, Lit '':'', Digits 2, Lit '':'', Digits 2, Lit ''.'', Digits 3, Lit ''Z'']"

definition short_shape :: "part list" where
  "short_shape =
     [Digits 4, Lit ''-'', Digits 2, Lit ''-'', Digits 2, Lit ''T'',
      Digits 2, Lit '':'', Digits 2, Lit '':'', Digits 2, Lit ''Z'']"

text \<open>The shape of the text that \<open>datetime\<close> of SQLite returns: \<open>YYYY-MM-DD HH:MM:SS\<close>.\<close>

definition sql_shape :: "part list" where
  "sql_shape =
     [Digits 4, Lit ''-'', Digits 2, Lit ''-'', Digits 2, Lit '' '',
      Digits 2, Lit '':'', Digits 2, Lit '':'', Digits 2]"

text \<open>
  The instant that a UTC timestamp of one of the two shapes denotes: year, month, day,
  hour, minute, second, millisecond. Two instants are in the order of time when these
  lists are in lexicographic order. The fields are not checked against the calendar; a
  text of another shape denotes no instant here. \<open>utc_second\<close> is the instant cut to
  the whole second.
\<close>

definition utc_instant :: "string \<Rightarrow> nat list option" where
  "utc_instant t =
     (if has_shape iso_shape t then Some (fields iso_shape t)
      else if has_shape short_shape t then Some (fields short_shape t @ [0])
      else None)"

definition utc_second :: "string \<Rightarrow> nat list option" where
  "utc_second t = map_option butlast (utc_instant t)"

text \<open>
  \<open>datetime\<close> of SQLite on a UTC timestamp of one of the two shapes: the date, a
  space, and the time to the whole second. SQLite reads more forms of a time than these
  two; here every other text gives NULL, and this function is used below only on texts
  of the two shapes.
\<close>

definition utc_datetime :: "string \<Rightarrow> string option" where
  "utc_datetime t =
     (if has_shape iso_shape t \<or> has_shape short_shape t
      then Some (take 10 t @ '' '' @ take 8 (drop 11 t))
      else None)"

text \<open>
  The candidate predicate in the words of the specification: \<open>scheduledAt\<close> is present,
  the instant it denotes is not after the instant of \<open>now\<close>, and the post is not
  delivered. It is compared below with \<open>due\<close>, the predicate of the query.
\<close>

definition due_in_time :: "string \<Rightarrow> post \<Rightarrow> bool" where
  "due_in_time now p =
     (sent p = 0 \<and>
      (case scheduledAt p of
         None \<Rightarrow> False
       | Some t \<Rightarrow>
           (case utc_instant t of
              None \<Rightarrow> False
            | Some a \<Rightarrow> (case utc_instant now of None \<Rightarrow> False | Some b \<Rightarrow> a \<le> b))))"

section \<open>The dispatch engine\<close>

text \<open>The caption: \<open>*title*\<close>, an empty line, then \<open>post.description || ""\<close>.\<close>

definition caption :: "post \<Rightarrow> string" where
  "caption p =
     ''*'' @ title p @ ''*'' @ [CHR 0x0A, CHR 0x0A]
       @ (case description p of None \<Rightarrow> [] | Some d \<Rightarrow> d)"

text \<open>One call of the bot, recorded in the trace with its outcome.\<close>

definition call_gateway :: "gateway \<Rightarrow> int \<Rightarrow> gateway_call \<Rightarrow> state \<Rightarrow> bool \<times> state" where
  "call_gateway gw i c s =
     (let ok = gw (length (channel_log s)) c
      in (ok, s\<lparr>channel_log := channel_log s @ [\<lparr>for_post = i, request = c, delivered_ok = ok\<rparr>]\<rparr>))"

text \<open>
  Rendering and sending one post: the same statements in the manual handler (lines 381
  to 404) and in the scan (lines 487 to 510). The result is \<open>False\<close> when the call
  threw. A file of the upload directory is removed after it was sent.
\<close>

definition send_rendered :: "gateway \<Rightarrow> user \<Rightarrow> post \<Rightarrow> state \<Rightarrow> bool \<times> state" where
  "send_rendered gw u p s =
     (let cap = caption p; tok = telegram_token u; ch = channel_id u
      in case url p of
           None \<Rightarrow> call_gateway gw (post_id p) (SendMessage tok ch cap) s
         | Some link \<Rightarrow>
             if includes_str link ''/uploads/'' then
               (if basename link \<in> uploads s then
                  (case call_gateway gw (post_id p) (SendPhoto tok ch (Stream (basename link)) cap) s of
                     (ok, s1) \<Rightarrow>
                       if ok then (True, s1\<lparr>uploads := uploads s1 - {basename link}\<rparr>)
                       else (False, s1))
                else call_gateway gw (post_id p) (SendPhoto tok ch (Link link) cap) s)
             else if link \<noteq> [] then
               call_gateway gw (post_id p) (SendPhoto tok ch (Link link) cap) s
             else call_gateway gw (post_id p) (SendMessage tok ch cap) s)"

subsection \<open>Manual dispatch\<close>

text \<open>
  \<open>POST /sendPost/:id\<close> (lines 360 to 412) in its two parts: the reads that come
  first (the post, the ownership check, the owner's credentials: lines 363 to 376), and
  the delivery with the removal of the row (lines 378 to 408). A call that throws is
  answered with 500 and the row stays.
\<close>

definition sendPost_lookup ::
  "int option \<Rightarrow> usersDb \<Rightarrow> int \<Rightarrow> state \<Rightarrow> response + (user \<times> post)" where
  "sendPost_lookup requester users i s =
     (case select_post i (posts s) of
        None \<Rightarrow> Inl (Error_status 404)
      | Some p \<Rightarrow>
          (case verifyOwnershipOrReject p requester of
             Some r \<Rightarrow> Inl r
           | None \<Rightarrow>
               (case users (user_id p) of
                  None \<Rightarrow> Inl (Error_status 400)
                | Some u \<Rightarrow> Inr (u, p))))"

definition sendPost_deliver ::
  "gateway \<Rightarrow> user \<Rightarrow> post \<Rightarrow> int \<Rightarrow> state \<Rightarrow> response \<times> state" where
  "sendPost_deliver gw u p i s =
     (case send_rendered gw u p s of
        (ok, s1) \<Rightarrow>
          if ok then (Ok_json, broadcast Posts_updated (snd (markDelivered i s1)))
          else (Error_status 500, s1))"

definition sendPost ::
  "gateway \<Rightarrow> int option \<Rightarrow> usersDb \<Rightarrow> int \<Rightarrow> state \<Rightarrow> response \<times> state" where
  "sendPost gw requester users i s =
     (case sendPost_lookup requester users i s of
        Inl r \<Rightarrow> (r, s)
      | Inr (u, p) \<Rightarrow> sendPost_deliver gw u p i s)"

subsection \<open>The periodic scan\<close>

text \<open>
  The body of the loop of the scan (lines 476 to 516), over the rows the query
  returned: a post whose owner is not found is skipped; a failed call is logged and the
  loop goes on; after a successful call the row is deleted.
\<close>

fun deliver_all :: "gateway \<Rightarrow> usersDb \<Rightarrow> post list \<Rightarrow> state \<Rightarrow> state" where
  "deliver_all gw users [] s = s"
| "deliver_all gw users (p # rest) s =
     (case users (user_id p) of
        None \<Rightarrow> deliver_all gw users rest s
      | Some u \<Rightarrow>
          (case send_rendered gw u p s of
             (ok, s1) \<Rightarrow>
               deliver_all gw users rest
                 (if ok then snd (markDelivered (post_id p) s1) else s1)))"

text \<open>
  One tick of the scan (lines 468 to 522); \<open>now\<close> is \<open>new Date().toISOString()\<close>.
\<close>

definition scan_tick :: "gateway \<Rightarrow> usersDb \<Rightarrow> string \<Rightarrow> state \<Rightarrow> state" where
  "scan_tick gw users now s =
     (let found = claimDueCandidates now s;
          s1 = deliver_all gw users found s
      in if found \<noteq> [] then broadcast Posts_updated s1 else s1)"

text \<open>
  A manual dispatch that overlaps a tick. Every \<open>await\<close> of a handler lets the other
  one run, and a row is deleted only after the bot has answered. The manual handler
  reads the post while the tick still awaits that answer; these reads change nothing
  and the tick does not depend on them, so the run is the same as: the reads of the
  manual handler, then the tick, then the delivery of the manual handler.
\<close>

definition sendPost_during_scan ::
  "gateway \<Rightarrow> int option \<Rightarrow> usersDb \<Rightarrow> string \<Rightarrow> int \<Rightarrow> state \<Rightarrow> response \<times> state" where
  "sendPost_during_scan gw requester users now i s =
     (case sendPost_lookup requester users i s of
        Inl r \<Rightarrow> (r, scan_tick gw users now s)
      | Inr (u, p) \<Rightarrow> sendPost_deliver gw u p i (scan_tick gw users now s))"

text \<open>The calls of the trace for one post that succeeded.\<close>

definition successful_calls :: "int \<Rightarrow> state \<Rightarrow> attempt list" where
  "successful_calls i s = filter (\<lambda>a. for_post a = i \<and> delivered_ok a) (channel_log s)"

text \<open>The calls of the gateway made between two states.\<close>

definition new_attempts :: "state \<Rightarrow> state \<Rightarrow> attempt list" where
  "new_attempts s s' = drop (length (channel_log s)) (channel_log s')"

section \<open>The program as a state machine\<close>

text \<open>
  Everything that changes the state: the requests of the router, a tick of the scan,
  and the WebSocket events of \<open>attachEvents\<close> (a connection is added to the set of
  clients, a close removes it). The handlers that only read are left out.
\<close>

datatype event =
  Create "int option" int "string field" "string field" "string field"
| Upload "int option" "string option"
| Update "int option" int "string field" "string field" "string field" "string field"
| Delete_post "int option" int
| Delete_image "int option" int
| SchedulePost "int option" int "string field"
| CancelSchedule "int option" int
| SendPost gateway "int option" usersDb int
| Tick gateway usersDb string
| Connection
| Close nat

fun handle :: "event \<Rightarrow> state \<Rightarrow> state" where
  "handle (Create r u t d l) s = snd (create r u t d l s)"
| "handle (Upload r f) s = snd (upload r f s)"
| "handle (Update r i t d l w) s = snd (update r i t d l w s)"
| "handle (Delete_post r i) s = snd (delete_post r i s)"
| "handle (Delete_image r i) s = snd (delete_image r i s)"
| "handle (SchedulePost r i w) s = snd (schedulePost r i w s)"
| "handle (CancelSchedule r i) s = snd (cancelSchedule r i s)"
| "handle (SendPost gw r us i) s = snd (sendPost gw r us i s)"
| "handle (Tick gw us now) s = scan_tick gw us now s"
| "handle Connection s = s\<lparr>clients := clients s @ [\<lparr>readyState = 1, inbox = []\<rparr>]\<rparr>"
| "handle (Close k) s = s\<lparr>clients := take k (clients s) @ drop (Suc k) (clients s)\<rparr>"

fun run :: "event list \<Rightarrow> state \<Rightarrow> state" where
  "run [] s = s"
| "run (e # es) s = run es (handle e s)"

text \<open>The store after \<open>CREATE TABLE IF NOT EXISTS\<close> on a new database, nobody connected.\<close>

definition initial :: state where
  "initial = \<lparr>posts = [], seq = 0, uploads = {}, clients = [], channel_log = []\<rparr>"

text \<open>The \<open>sent\<close> flag of every stored row is 0.\<close>

definition all_unsent :: "state \<Rightarrow> bool" where
  "all_unsent s = list_all (\<lambda>p. sent p = 0) (posts s)"

text \<open>
  What the declaration \<open>INTEGER PRIMARY KEY AUTOINCREMENT\<close> of \<open>id\<close> gives: the ids
  of the rows are distinct and none is above the sequence of the table.
\<close>

definition well_keyed :: "state \<Rightarrow> bool" where
  "well_keyed s =
     (distinct (map post_id (posts s)) \<and> list_all (\<lambda>p. post_id p \<le> seq s) (posts s))"

section \<open>Example data\<close>

definition example_user :: user where
  "example_user = \<lparr>telegram_token = Some ''token'', channel_id = Some ''@channel''\<rparr>"

definition example_users :: usersDb where
  "example_users = (\<lambda>i. if i = 7 then Some example_user else None)"

definition post_draft :: post where
  "post_draft = \<lparr>post_id = 1, user_id = 7, title = ''Draft'', description = None,
                  url = None, scheduledAt = None, sent = 0\<rparr>"

definition post_due :: post where
  "post_due = \<lparr>post_id = 2, user_id = 7, title = ''X'', description = Some ''Y'',
                url = None, scheduledAt = Some ''2025-12-31T23:59:59.000Z'', sent = 0\<rparr>"

definition post_later :: post where
  "post_later = \<lparr>post_id = 3, user_id = 7, title = ''Later'', description = None,
                  url = Some ''https://example.org/a.png'',
                  scheduledAt = Some ''2026-06-01T00:00:00.000Z'', sent = 0\<rparr>"

definition example_now :: string where
  "example_now = ''2026-01-01T00:00:00.000Z''"

definition example_store :: state where
  "example_store = \<lparr>posts = [post_draft, post_due, post_later], seq = 3, uploads = {},
                     clients = [\<lparr>readyState = 1, inbox = []\<rparr>, \<lparr>readyState = 3, inbox = []\<rparr>],
                     channel_log = []\<rparr>"

definition always_succeeds :: gateway where
  "always_succeeds = (\<lambda>n c. True)"

definition always_fails :: gateway where
  "always_fails = (\<lambda>n c. False)"

definition example_later :: string where
  "example_later = ''2026-07-01T00:00:00.000Z''"

text \<open>A gateway whose first call fails and whose later calls succeed.\<close>

definition fails_first :: gateway where
  "fails_first = (\<lambda>n c. n \<noteq> 0)"

definition example_events :: "event list" where
  "example_events =
     [Connection,
      Create (Some 7) 7 (Value ''X'') (Value ''Y'') Undefined,
      SchedulePost (Some 7) 1 (Value ''2025-12-31T23:59:59.000Z''),
      Tick always_fails example_users example_now,
      Update (Some 7) 1 (Value ''Z'') Undefined Null Undefined]"

text \<open>A post scheduled with a timestamp that has no milliseconds, and a later \<open>now\<close>.\<close>

definition post_short :: post where
  "post_short = \<lparr>post_id = 4, user_id = 7, title = ''Short'', description = None,
                  url = None, scheduledAt = Some ''2026-01-01T00:00:00Z'', sent = 0\<rparr>"

definition half_past :: string where
  "half_past = ''2026-01-01T00:00:00.500Z''"

text \<open>Two posts scheduled within the same second, the newer one for the later time.\<close>

definition post_early :: post where
  "post_early = \<lparr>post_id = 3, user_id = 7, title = ''C'', description = None,
                  url = None, scheduledAt = Some ''2026-03-01T12:00:00.100Z'', sent = 0\<rparr>"

definition post_late :: post where
  "post_late = \<lparr>post_id = 5, user_id = 7, title = ''B'', description = None,
                 url = None, scheduledAt = Some ''2026-03-01T12:00:00.900Z'', sent = 0\<rparr>"

section \<open>Verified properties\<close>

subsection \<open>Deleting a delivered post\<close>

lemma filter_id_distinct:
  "distinct (map post_id ps) \<Longrightarrow> P \<in> set ps \<Longrightarrow> filter (\<lambda>p. post_id p = post_id P) ps = [P]"
proof (induction ps)
  case Nil
  then show ?case by simp
next
  case (Cons a ps)
  show ?case
  proof (cases "a = P")
    case True
    with Cons.prems have "post_id P \<notin> post_id ` set ps" by simp
    then have "\<forall>q\<in>set ps. post_id q \<noteq> post_id P" by (auto simp: image_iff)
    then have "filter (\<lambda>p. post_id p = post_id P) ps = []" by (simp add: filter_empty_conv)
    with True show ?thesis by simp
  next
    case False
    with Cons.prems have "P \<in> set ps" "post_id a \<noteq> post_id P" by auto
    with Cons show ?thesis by simp
  qed
qed

lemma same_id_same_post:
  assumes "distinct (map post_id ps)" and "P \<in> set ps" and "q \<in> set ps"
    and "post_id q = post_id P"
  shows "q = P"
proof -
  have "filter (\<lambda>p. post_id p = post_id P) ps = [P]"
    using assms(1,2) by (rule filter_id_distinct)
  moreover have "q \<in> set (filter (\<lambda>p. post_id p = post_id P) ps)"
    using assms(3,4) by simp
  ultimately show ?thesis by simp
qed

text \<open>
  C3. The ids of the table are distinct (\<open>id\<close> is its primary key). Deleting a stored
  post by its id removes exactly that row, and the statement reports one changed row;
  the same statement run again reports no changed row, raises nothing and leaves the
  state as it is.
\<close>

theorem markDelivered_twice:
  assumes "distinct (map post_id (posts s))" and "P \<in> set (posts s)"
  shows "fst (markDelivered (post_id P) s) = 1
       \<and> set (posts (snd (markDelivered (post_id P) s))) = set (posts s) - {P}
       \<and> markDelivered (post_id P) (snd (markDelivered (post_id P) s))
           = (0, snd (markDelivered (post_id P) s))"
proof -
  have one: "filter (\<lambda>p. post_id p = post_id P) (posts s) = [P]"
    using assms by (rule filter_id_distinct)
  have "\<And>q. q \<in> set (posts s) \<Longrightarrow> post_id q = post_id P \<Longrightarrow> q = P"
    using assms same_id_same_post by blast
  then have "set (filter (\<lambda>p. post_id p \<noteq> post_id P) (posts s)) = set (posts s) - {P}"
    by auto
  with one show ?thesis
    by (simp add: markDelivered_def)
qed

theorem markDelivered_twice_witness:
  "distinct (map post_id (posts example_store)) \<and> post_due \<in> set (posts example_store)
   \<and> fst (markDelivered 2 example_store) = 1
   \<and> posts (snd (markDelivered 2 example_store)) = [post_draft, post_later]
   \<and> markDelivered 2 (snd (markDelivered 2 example_store))
        = (0, snd (markDelivered 2 example_store))"
proof -
  have d: "distinct (map post_id (posts example_store))"
    by (simp add: example_store_def post_draft_def post_due_def post_later_def)
  have m: "post_due \<in> set (posts example_store)"
    by (simp add: example_store_def)
  have i: "post_id post_due = 2"
    by (simp add: post_due_def)
  have "posts (snd (markDelivered 2 example_store)) = [post_draft, post_later]"
    by (simp add: markDelivered_def example_store_def post_draft_def post_due_def post_later_def)
  with d m markDelivered_twice [OF d m] show ?thesis
    by (simp add: i)
qed

subsection \<open>What a delivery and a tick change\<close>

lemma broadcast_fields [simp]:
  "posts (broadcast m s) = posts s"
  "seq (broadcast m s) = seq s"
  "uploads (broadcast m s) = uploads s"
  "channel_log (broadcast m s) = channel_log s"
  by (simp_all add: broadcast_def)

lemma markDelivered_fields [simp]:
  "posts (snd (markDelivered i s)) = filter (\<lambda>p. post_id p \<noteq> i) (posts s)"
  "seq (snd (markDelivered i s)) = seq s"
  "uploads (snd (markDelivered i s)) = uploads s"
  "clients (snd (markDelivered i s)) = clients s"
  "channel_log (snd (markDelivered i s)) = channel_log s"
  by (simp_all add: markDelivered_def)

lemma send_rendered_effect:
  assumes "send_rendered gw u p s = (ok, s1)"
  shows "posts s1 = posts s \<and> seq s1 = seq s \<and> clients s1 = clients s
       \<and> (\<exists>c. channel_log s1 = channel_log s @ [\<lparr>for_post = post_id p, request = c, delivered_ok = ok\<rparr>])"
  using assms
  by (auto simp: send_rendered_def call_gateway_def Let_def
      split: option.splits if_splits prod.splits)

lemma deliver_all_effect:
  "\<exists>new. channel_log (deliver_all gw users cs s) = channel_log s @ new
     \<and> map for_post new = map post_id (filter (\<lambda>p. users (user_id p) \<noteq> None) cs)
     \<and> posts (deliver_all gw users cs s)
         = filter (\<lambda>q. \<not> (\<exists>a\<in>set new. for_post a = post_id q \<and> delivered_ok a)) (posts s)
     \<and> clients (deliver_all gw users cs s) = clients s
     \<and> seq (deliver_all gw users cs s) = seq s"
proof (induction cs arbitrary: s)
  case Nil
  show ?case by simp
next
  case (Cons p rest)
  show ?case
  proof (cases "users (user_id p)")
    case None
    with Cons.IH [of s] show ?thesis by simp
  next
    case (Some u)
    obtain ok s1 where sr: "send_rendered gw u p s = (ok, s1)"
      by (cases "send_rendered gw u p s")
    define s2 where "s2 = (if ok then snd (markDelivered (post_id p) s1) else s1)"
    from send_rendered_effect [OF sr] obtain c where
      e: "posts s1 = posts s" "seq s1 = seq s" "clients s1 = clients s"
         "channel_log s1 = channel_log s @ [\<lparr>for_post = post_id p, request = c, delivered_ok = ok\<rparr>]"
      by blast
    have step: "deliver_all gw users (p # rest) s = deliver_all gw users rest s2"
      using Some sr by (simp add: s2_def)
    from Cons.IH [of s2] obtain new2 where
      h: "channel_log (deliver_all gw users rest s2) = channel_log s2 @ new2"
         "map for_post new2 = map post_id (filter (\<lambda>p. users (user_id p) \<noteq> None) rest)"
         "posts (deliver_all gw users rest s2)
            = filter (\<lambda>q. \<not> (\<exists>a\<in>set new2. for_post a = post_id q \<and> delivered_ok a)) (posts s2)"
         "clients (deliver_all gw users rest s2) = clients s2"
         "seq (deliver_all gw users rest s2) = seq s2"
      by blast
    let ?a = "\<lparr>for_post = post_id p, request = c, delivered_ok = ok\<rparr>"
    have l2: "channel_log s2 = channel_log s @ [?a]" using e by (simp add: s2_def)
    have p2: "posts s2 = filter (\<lambda>q. \<not> (for_post ?a = post_id q \<and> delivered_ok ?a)) (posts s)"
      using e by (auto simp: s2_def intro: filter_cong)
    have c2: "clients s2 = clients s" "seq s2 = seq s" using e by (simp_all add: s2_def)
    have "channel_log (deliver_all gw users (p # rest) s) = channel_log s @ (?a # new2)"
      using step h(1) l2 by simp
    moreover have "map for_post (?a # new2)
        = map post_id (filter (\<lambda>p. users (user_id p) \<noteq> None) (p # rest))"
      using h(2) Some by simp
    moreover have "posts (deliver_all gw users (p # rest) s)
        = filter (\<lambda>q. \<not> (\<exists>a\<in>set (?a # new2). for_post a = post_id q \<and> delivered_ok a)) (posts s)"
      unfolding step h(3) p2 filter_filter
      by (rule filter_cong) auto
    moreover have "clients (deliver_all gw users (p # rest) s) = clients s"
      "seq (deliver_all gw users (p # rest) s) = seq s"
      using step h(4,5) c2 by simp_all
    ultimately show ?thesis by blast
  qed
qed

lemma scan_tick_effect:
  "\<exists>new. channel_log (scan_tick gw users now s) = channel_log s @ new
     \<and> map for_post new
         = map post_id (filter (\<lambda>p. users (user_id p) \<noteq> None) (claimDueCandidates now s))
     \<and> posts (scan_tick gw users now s)
         = filter (\<lambda>q. \<not> (\<exists>a\<in>set new. for_post a = post_id q \<and> delivered_ok a)) (posts s)
     \<and> seq (scan_tick gw users now s) = seq s"
proof -
  from deliver_all_effect [of gw users "claimDueCandidates now s" s]
  obtain new where
    h: "channel_log (deliver_all gw users (claimDueCandidates now s) s) = channel_log s @ new"
       "map for_post new
          = map post_id (filter (\<lambda>p. users (user_id p) \<noteq> None) (claimDueCandidates now s))"
       "posts (deliver_all gw users (claimDueCandidates now s) s)
          = filter (\<lambda>q. \<not> (\<exists>a\<in>set new. for_post a = post_id q \<and> delivered_ok a)) (posts s)"
       "seq (deliver_all gw users (claimDueCandidates now s) s) = seq s"
    by blast
  then show ?thesis
    by (auto simp: scan_tick_def Let_def)
qed

subsection \<open>Failed deliveries\<close>

text \<open>
  C6. In one tick of the scan, every candidate whose owner is found in the users
  database is attempted once, in the order of the query, whatever the outcome of the
  attempts before it. The store after the tick is the store before it without the posts
  that had a successful attempt. So a candidate whose attempts all failed is still in the
  store, as the same row, and is still a candidate.
\<close>

theorem failed_delivery_keeps_post:
  "map for_post (new_attempts s (scan_tick gw users now s))
     = map post_id (filter (\<lambda>p. users (user_id p) \<noteq> None) (claimDueCandidates now s))
   \<and> posts (scan_tick gw users now s)
     = filter (\<lambda>q. \<not> (\<exists>a\<in>set (new_attempts s (scan_tick gw users now s)).
                          for_post a = post_id q \<and> delivered_ok a)) (posts s)
   \<and> (\<forall>P\<in>set (claimDueCandidates now s).
        (\<forall>a\<in>set (new_attempts s (scan_tick gw users now s)).
            for_post a = post_id P \<longrightarrow> \<not> delivered_ok a)
        \<longrightarrow> P \<in> set (posts (scan_tick gw users now s))
          \<and> P \<in> set (claimDueCandidates now (scan_tick gw users now s)))"
proof -
  from scan_tick_effect [of gw users now s] obtain new where
    h: "channel_log (scan_tick gw users now s) = channel_log s @ new"
       "map for_post new
          = map post_id (filter (\<lambda>p. users (user_id p) \<noteq> None) (claimDueCandidates now s))"
       "posts (scan_tick gw users now s)
          = filter (\<lambda>q. \<not> (\<exists>a\<in>set new. for_post a = post_id q \<and> delivered_ok a)) (posts s)"
    by blast
  have n: "new_attempts s (scan_tick gw users now s) = new"
    by (simp add: new_attempts_def h(1))
  show ?thesis
    unfolding n using h(2,3)
    by (auto simp: claimDueCandidates_def)
qed

lemma tick_fails_first:
  "scan_tick fails_first example_users example_later example_store =
     \<lparr>posts = [post_draft, post_due], seq = 3, uploads = {},
      clients = [\<lparr>readyState = 1, inbox = [Posts_updated]\<rparr>, \<lparr>readyState = 3, inbox = []\<rparr>],
      channel_log =
        [\<lparr>for_post = 2,
          request = SendMessage (Some ''token'') (Some ''@channel'') (caption post_due),
          delivered_ok = False\<rparr>,
         \<lparr>for_post = 3,
          request = SendPhoto (Some ''token'') (Some ''@channel'')
                      (Link ''https://example.org/a.png'') (caption post_later),
          delivered_ok = True\<rparr>]\<rparr>"
  by (simp add: scan_tick_def claimDueCandidates_def due_def example_store_def
      example_later_def example_users_def example_user_def post_draft_def post_due_def
      post_later_def send_rendered_def call_gateway_def fails_first_def Let_def
      markDelivered_def broadcast_def)

theorem failed_delivery_keeps_post_witness:
  "post_due \<in> set (claimDueCandidates example_later example_store)
   \<and> map delivered_ok (new_attempts example_store
                 (scan_tick fails_first example_users example_later example_store))
       = [False, True]
   \<and> map for_post (new_attempts example_store
                 (scan_tick fails_first example_users example_later example_store)) = [2, 3]
   \<and> post_due \<in> set (posts (scan_tick fails_first example_users example_later example_store))
   \<and> post_due \<in> set (claimDueCandidates example_later
                 (scan_tick fails_first example_users example_later example_store))"
proof -
  have c: "post_due \<in> set (claimDueCandidates example_later example_store)"
    by (simp add: claimDueCandidates_def due_def example_store_def example_later_def
        post_draft_def post_due_def post_later_def)
  have n: "\<And>t. new_attempts example_store t = channel_log t"
    by (simp add: new_attempts_def example_store_def)
  have f: "\<forall>a\<in>set (new_attempts example_store
                 (scan_tick fails_first example_users example_later example_store)).
         for_post a = post_id post_due \<longrightarrow> \<not> delivered_ok a"
    by (simp add: n tick_fails_first post_due_def)
  have m: "map for_post (new_attempts example_store
                 (scan_tick fails_first example_users example_later example_store)) = [2, 3]"
    by (simp add: n tick_fails_first)
  have o: "map delivered_ok (new_attempts example_store
                 (scan_tick fails_first example_users example_later example_store))
       = [False, True]"
    by (simp add: n tick_fails_first)
  from failed_delivery_keeps_post [of example_store fails_first example_users example_later]
    c f have "post_due \<in> set (posts (scan_tick fails_first example_users example_later example_store))
      \<and> post_due \<in> set (claimDueCandidates example_later
                 (scan_tick fails_first example_users example_later example_store))"
    by blast
  with c o m show ?thesis by simp
qed

subsection \<open>The change event of a tick\<close>

text \<open>
  C10. A tick sends \<open>posts_updated\<close> once to every open client when the candidate
  query returned at least one row, whether or not a delivery succeeded, and sends
  nothing to anybody when the query returned no row.
\<close>

theorem scan_tick_publishes:
  "clients (scan_tick gw users now s) =
     map (\<lambda>c. if claimDueCandidates now s \<noteq> [] \<and> readyState c = 1
              then c\<lparr>inbox := inbox c @ [Posts_updated]\<rparr> else c) (clients s)"
proof -
  from deliver_all_effect [of gw users "claimDueCandidates now s" s]
  have c: "clients (deliver_all gw users (claimDueCandidates now s) s) = clients s"
    by blast
  show ?thesis
  proof (cases "claimDueCandidates now s = []")
    case True
    then show ?thesis by (simp add: scan_tick_def Let_def c map_idI)
  next
    case False
    then show ?thesis by (simp add: scan_tick_def Let_def c broadcast_def)
  qed
qed

theorem scan_tick_publishes_witness:
  "claimDueCandidates example_now example_store \<noteq> []
   \<and> posts (scan_tick always_fails example_users example_now example_store) = posts example_store
   \<and> clients (scan_tick always_fails example_users example_now example_store)
       = [\<lparr>readyState = 1, inbox = [Posts_updated]\<rparr>, \<lparr>readyState = 3, inbox = []\<rparr>]
   \<and> claimDueCandidates ''2025-01-01T00:00:00.000Z'' example_store = []
   \<and> clients (scan_tick always_succeeds example_users ''2025-01-01T00:00:00.000Z'' example_store)
       = clients example_store"
proof -
  have a: "claimDueCandidates example_now example_store = [post_due]"
    by (simp add: claimDueCandidates_def due_def example_store_def example_now_def
        post_draft_def post_due_def post_later_def)
  have b: "claimDueCandidates ''2025-01-01T00:00:00.000Z'' example_store = []"
    by (simp add: claimDueCandidates_def due_def example_store_def
        post_draft_def post_due_def post_later_def)
  have p: "posts (scan_tick always_fails example_users example_now example_store)
             = posts example_store"
    by (simp add: scan_tick_def a Let_def example_users_def post_due_def send_rendered_def
        call_gateway_def always_fails_def)
  show ?thesis
    unfolding scan_tick_publishes a b using p
    by (simp add: example_store_def)
qed

subsection \<open>Cancelling a schedule\<close>

lemma select_post_Some:
  "select_post i ps = Some p \<Longrightarrow> p \<in> set ps \<and> post_id p = i"
  by (auto simp: select_post_def find_Some_iff)

lemma not_due_unscheduled: "scheduledAt p = None \<Longrightarrow> \<not> due now p"
  by (simp add: due_def)

lemma cancelSchedule_posts:
  assumes "cancelSchedule requester i s = (Ok_json, s')"
  shows "posts s' = update_post (\<lambda>row. row\<lparr>scheduledAt := None\<rparr>) i (posts s)"
  using assms
  by (auto simp: cancelSchedule_def verifyOwnershipOrReject_def
      split: option.splits if_splits)

lemma sendPost_deliver_posts:
  "set (posts (snd (sendPost_deliver gw u p i s))) \<subseteq> set (posts s)"
proof -
  obtain ok s1 where sr: "send_rendered gw u p s = (ok, s1)"
    by (cases "send_rendered gw u p s")
  from send_rendered_effect [OF sr] have "posts s1 = posts s" by blast
  with sr show ?thesis
    by (auto simp: sendPost_deliver_def)
qed

lemma deliver_all_posts:
  "set (posts (deliver_all gw users cs s)) \<subseteq> set (posts s)"
  using deliver_all_effect [of gw users cs s]
  by (elim exE conjE) auto

lemma in_update_post:
  "q \<in> set (update_post f i ps)
     \<Longrightarrow> \<exists>p\<in>set ps. (post_id p = i \<and> q = f p) \<or> (post_id p \<noteq> i \<and> q = p)"
  by (induction ps) (auto simp: update_post_def)

text \<open>
  C8. After a successful \<open>DELETE /schedulePost/:id\<close> every row with that id has no
  \<open>scheduledAt\<close>, and the candidate query returns no post with that id at any \<open>now\<close>.
  This stays so when a delivery that had read the post before the cancellation goes on:
  the rest of a tick over any batch of rows, a whole tick, or the second part of a
  manual dispatch of any earlier copy \<open>p0\<close> of the post.
\<close>

theorem cancelled_post_never_candidate:
  assumes "cancelSchedule requester i s = (Ok_json, s')"
  shows "(\<forall>p\<in>set (posts s'). post_id p = i \<longrightarrow> scheduledAt p = None)
       \<and> (\<forall>p\<in>set (claimDueCandidates now s'). post_id p \<noteq> i)
       \<and> (\<forall>p\<in>set (claimDueCandidates now (deliver_all gw users batch s')). post_id p \<noteq> i)
       \<and> (\<forall>p\<in>set (claimDueCandidates now (scan_tick gw users before s')). post_id p \<noteq> i)
       \<and> (\<forall>p\<in>set (claimDueCandidates now (snd (sendPost_deliver gw u p0 i s'))). post_id p \<noteq> i)"
proof -
  have a: "\<forall>p\<in>set (posts s'). post_id p = i \<longrightarrow> scheduledAt p = None"
  proof
    fix q assume "q \<in> set (posts s')"
    then have "q \<in> set (update_post (\<lambda>row. row\<lparr>scheduledAt := None\<rparr>) i (posts s))"
      by (simp only: cancelSchedule_posts [OF assms])
    from in_update_post [OF this] obtain p where
      "(post_id p = i \<and> q = p\<lparr>scheduledAt := None\<rparr>) \<or> (post_id p \<noteq> i \<and> q = p)"
      by blast
    then show "post_id q = i \<longrightarrow> scheduledAt q = None"
      by (elim disjE conjE) simp_all
  qed
  have b: "\<forall>p\<in>set (claimDueCandidates now t). post_id p \<noteq> i"
    if sub: "set (posts t) \<subseteq> set (posts s')" for t
  proof
    fix p assume "p \<in> set (claimDueCandidates now t)"
    then have "p \<in> set (posts t)" and d: "due now p"
      by (simp_all add: claimDueCandidates_def)
    with sub have "p \<in> set (posts s')" by blast
    with a have "post_id p = i \<longrightarrow> scheduledAt p = None" by blast
    with d not_due_unscheduled show "post_id p \<noteq> i" by blast
  qed
  have c: "set (posts (scan_tick gw users before s')) \<subseteq> set (posts s')"
    using deliver_all_posts [of gw users "claimDueCandidates before s'" s']
    by (simp add: scan_tick_def Let_def)
  note b1 = b [OF subset_refl] and b2 = b [OF deliver_all_posts, of gw users batch]
    and b3 = b [OF c] and b4 = b [OF sendPost_deliver_posts, of gw u p0 i]
  from a b1 b2 b3 b4 show ?thesis
    by (simp only: simp_thms)
qed

theorem cancelled_post_never_candidate_witness:
  "cancelSchedule (Some 7) 2 example_store
     = (Ok_json, broadcast Posts_updated
          (example_store\<lparr>posts := [post_draft, post_due\<lparr>scheduledAt := None\<rparr>, post_later]\<rparr>))
   \<and> claimDueCandidates example_now example_store = [post_due]
   \<and> 2 \<notin> post_id ` set (claimDueCandidates example_now (broadcast Posts_updated
          (example_store\<lparr>posts := [post_draft, post_due\<lparr>scheduledAt := None\<rparr>, post_later]\<rparr>)))
   \<and> 2 \<notin> post_id ` set (claimDueCandidates example_now
          (deliver_all always_fails example_users [post_due] (broadcast Posts_updated
          (example_store\<lparr>posts := [post_draft, post_due\<lparr>scheduledAt := None\<rparr>, post_later]\<rparr>))))"
proof -
  have c: "cancelSchedule (Some 7) 2 example_store
     = (Ok_json, broadcast Posts_updated
          (example_store\<lparr>posts := [post_draft, post_due\<lparr>scheduledAt := None\<rparr>, post_later]\<rparr>))"
    by (simp add: cancelSchedule_def select_post_def verifyOwnershipOrReject_def
        update_post_def example_store_def post_draft_def post_due_def post_later_def)
  have d: "claimDueCandidates example_now example_store = [post_due]"
    by (simp add: claimDueCandidates_def due_def example_store_def example_now_def
        post_draft_def post_due_def post_later_def)
  from cancelled_post_never_candidate [OF c, of example_now always_fails example_users "[post_due]"]
  show ?thesis using c d by (simp add: image_iff)
qed

subsection \<open>Updating a post\<close>

lemma unlink_if_exists_fields [simp]:
  "posts (unlink_if_exists f s) = posts s"
  "seq (unlink_if_exists f s) = seq s"
  "clients (unlink_if_exists f s) = clients s"
  "channel_log (unlink_if_exists f s) = channel_log s"
  by (simp_all add: unlink_if_exists_def split: option.splits)

lemma update_posts:
  assumes "update requester i ttl descr link sched s = (Ok_json, s')"
  shows "\<exists>p. select_post i (posts s) = Some p
     \<and> posts s' = update_post (\<lambda>row. row\<lparr>
           title := (case ttl of Value t \<Rightarrow> t | Undefined \<Rightarrow> title p | Null \<Rightarrow> title p),
           description := nullish descr (description p),
           url := (case link of Undefined \<Rightarrow> url p | Null \<Rightarrow> None | Value u \<Rightarrow> Some u),
           scheduledAt := nullish sched (scheduledAt p)\<rparr>) i (posts s)"
proof (cases "select_post i (posts s)")
  case None
  with assms show ?thesis by (simp add: update_def)
next
  case (Some p)
  show ?thesis
  proof (cases "verifyOwnershipOrReject p requester")
    case None
    with Some assms show ?thesis
      by (auto simp: update_def Let_def)
  next
    case (Some r)
    then have "r \<noteq> Ok_json"
      by (auto simp: verifyOwnershipOrReject_def split: option.splits if_splits)
    with Some \<open>select_post i (posts s) = Some p\<close> assms show ?thesis
      by (simp add: update_def)
  qed
qed

text \<open>
  C7. After a successful \<open>PUT /:id\<close> on a table with distinct ids, the table has the
  same rows at the same places, a row with another id is untouched, and in the row
  with the id: \<open>id\<close>, \<open>user_id\<close> and \<open>sent\<close> are unchanged; \<open>title\<close>,
  \<open>description\<close> and \<open>scheduledAt\<close> keep their value when the field is omitted (or
  null) and take the supplied value otherwise; \<open>url\<close> keeps its value when omitted,
  becomes NULL on an explicit null, and takes the supplied value otherwise.
\<close>

theorem update_changes_only_supplied:
  assumes ok: "update requester i ttl descr link sched s = (Ok_json, s')"
    and pk: "distinct (map post_id (posts s))"
  shows "length (posts s') = length (posts s)
    \<and> (\<forall>k<length (posts s).
         (post_id (posts s ! k) \<noteq> i \<longrightarrow> posts s' ! k = posts s ! k)
       \<and> (post_id (posts s ! k) = i \<longrightarrow>
            post_id (posts s' ! k) = i
          \<and> user_id (posts s' ! k) = user_id (posts s ! k)
          \<and> sent (posts s' ! k) = sent (posts s ! k)
          \<and> title (posts s' ! k)
              = (case ttl of Undefined \<Rightarrow> title (posts s ! k) | Null \<Rightarrow> title (posts s ! k)
                 | Value t \<Rightarrow> t)
          \<and> description (posts s' ! k)
              = (case descr of Undefined \<Rightarrow> description (posts s ! k)
                 | Null \<Rightarrow> description (posts s ! k) | Value d \<Rightarrow> Some d)
          \<and> url (posts s' ! k)
              = (case link of Undefined \<Rightarrow> url (posts s ! k) | Null \<Rightarrow> None
                 | Value u \<Rightarrow> Some u)
          \<and> scheduledAt (posts s' ! k)
              = (case sched of Undefined \<Rightarrow> scheduledAt (posts s ! k)
                 | Null \<Rightarrow> scheduledAt (posts s ! k) | Value w \<Rightarrow> Some w)))"
proof -
  from update_posts [OF ok] obtain p where
    sel: "select_post i (posts s) = Some p" and
    new: "posts s' = update_post (\<lambda>row. row\<lparr>
           title := (case ttl of Value t \<Rightarrow> t | Undefined \<Rightarrow> title p | Null \<Rightarrow> title p),
           description := nullish descr (description p),
           url := (case link of Undefined \<Rightarrow> url p | Null \<Rightarrow> None | Value u \<Rightarrow> Some u),
           scheduledAt := nullish sched (scheduledAt p)\<rparr>) i (posts s)"
    by blast
  from select_post_Some [OF sel] have p: "p \<in> set (posts s)" "post_id p = i" by simp_all
  have len: "length (posts s') = length (posts s)"
    by (simp add: new update_post_def)
  have row: "posts s ! k = p" if "k < length (posts s)" "post_id (posts s ! k) = i" for k
  proof -
    from that(1) have "posts s ! k \<in> set (posts s)" by simp
    with pk p that(2) show ?thesis by (simp add: same_id_same_post)
  qed
  have other: "posts s' ! k = posts s ! k"
    if "k < length (posts s)" "post_id (posts s ! k) \<noteq> i" for k
    using that by (simp add: new update_post_def)
  have target: "post_id (posts s' ! k) = i
          \<and> user_id (posts s' ! k) = user_id (posts s ! k)
          \<and> sent (posts s' ! k) = sent (posts s ! k)
          \<and> title (posts s' ! k)
              = (case ttl of Undefined \<Rightarrow> title (posts s ! k) | Null \<Rightarrow> title (posts s ! k)
                 | Value t \<Rightarrow> t)
          \<and> description (posts s' ! k)
              = (case descr of Undefined \<Rightarrow> description (posts s ! k)
                 | Null \<Rightarrow> description (posts s ! k) | Value d \<Rightarrow> Some d)
          \<and> url (posts s' ! k)
              = (case link of Undefined \<Rightarrow> url (posts s ! k) | Null \<Rightarrow> None
                 | Value u \<Rightarrow> Some u)
          \<and> scheduledAt (posts s' ! k)
              = (case sched of Undefined \<Rightarrow> scheduledAt (posts s ! k)
                 | Null \<Rightarrow> scheduledAt (posts s ! k) | Value w \<Rightarrow> Some w)"
    if k: "k < length (posts s)" "post_id (posts s ! k) = i" for k
  proof -
    from row [OF k] have e: "posts s ! k = p" .
    from k show ?thesis
      by (cases ttl; cases descr; cases link; cases sched)
         (simp_all add: new update_post_def e)
  qed
  show ?thesis
  proof (rule conjI [OF len], rule allI, rule impI, rule conjI)
    fix k assume k: "k < length (posts s)"
    show "post_id (posts s ! k) \<noteq> i \<longrightarrow> posts s' ! k = posts s ! k"
      by (rule impI) (rule other [OF k])
    show "post_id (posts s ! k) = i \<longrightarrow>
            post_id (posts s' ! k) = i
          \<and> user_id (posts s' ! k) = user_id (posts s ! k)
          \<and> sent (posts s' ! k) = sent (posts s ! k)
          \<and> title (posts s' ! k)
              = (case ttl of Undefined \<Rightarrow> title (posts s ! k) | Null \<Rightarrow> title (posts s ! k)
                 | Value t \<Rightarrow> t)
          \<and> description (posts s' ! k)
              = (case descr of Undefined \<Rightarrow> description (posts s ! k)
                 | Null \<Rightarrow> description (posts s ! k) | Value d \<Rightarrow> Some d)
          \<and> url (posts s' ! k)
              = (case link of Undefined \<Rightarrow> url (posts s ! k) | Null \<Rightarrow> None
                 | Value u \<Rightarrow> Some u)
          \<and> scheduledAt (posts s' ! k)
              = (case sched of Undefined \<Rightarrow> scheduledAt (posts s ! k)
                 | Null \<Rightarrow> scheduledAt (posts s ! k) | Value w \<Rightarrow> Some w)"
      by (rule impI) (rule target [OF k])
  qed
qed

theorem update_changes_only_supplied_witness:
  "update (Some 7) 3 Undefined (Value ''New text'') Null Undefined example_store
     = (Ok_json, broadcast Posts_updated (example_store\<lparr>posts :=
          [post_draft, post_due, post_later\<lparr>description := Some ''New text'', url := None\<rparr>]\<rparr>))
   \<and> distinct (map post_id (posts example_store))
   \<and> title (post_later\<lparr>description := Some ''New text'', url := None\<rparr>) = title post_later
   \<and> scheduledAt (post_later\<lparr>description := Some ''New text'', url := None\<rparr>)
       = scheduledAt post_later"
proof -
  have c: "update (Some 7) 3 Undefined (Value ''New text'') Null Undefined example_store
     = (Ok_json, broadcast Posts_updated (example_store\<lparr>posts :=
          [post_draft, post_due, post_later\<lparr>description := Some ''New text'', url := None\<rparr>]\<rparr>))"
    by (simp add: update_def select_post_def verifyOwnershipOrReject_def update_post_def
        example_store_def post_draft_def post_due_def post_later_def Let_def)
  have d: "distinct (map post_id (posts example_store))"
    by (simp add: example_store_def post_draft_def post_due_def post_later_def)
  have k: "(2::nat) < length (posts example_store)" "post_id (posts example_store ! 2) = 3"
    by (simp_all add: example_store_def post_later_def)
  from update_changes_only_supplied [OF c d] k c d show ?thesis
    by (simp add: example_store_def)
qed

subsection \<open>Creating a post\<close>

text \<open>
  C4, as stated, fails: a post whose title is the empty string is inserted like any
  other, and its id is returned.
\<close>

theorem create_empty_title_counterexample:
  "create (Some 7) 7 (Value []) Undefined Undefined initial
     = (Ok_id 1, initial\<lparr>posts := [\<lparr>post_id = 1, user_id = 7, title = [], description = None,
                                     url = None, scheduledAt = None, sent = 0\<rparr>], seq := 1\<rparr>)"
  by (simp add: create_def initial_def broadcast_def)

text \<open>
  C4, amended. For an authorised requester and a table whose ids are at most the
  sequence of the table: a missing or null title is refused by the \<open>NOT NULL\<close>
  constraint, the answer is 500 and the state is unchanged; any title that is a string,
  the empty one included, is inserted as a draft (\<open>scheduledAt\<close> NULL, \<open>sent\<close> 0) under
  an id the table does not hold, which is returned.
\<close>

theorem create_rejects_only_null_title:
  assumes "\<forall>p\<in>set (posts s). post_id p \<le> seq s"
  shows "(bind_param ttl = None \<longrightarrow> create (Some u) u ttl descr link s = (Error_status 500, s))
       \<and> (\<forall>t. ttl = Value t \<longrightarrow>
            create (Some u) u ttl descr link s
              = (Ok_id (seq s + 1),
                 broadcast Posts_updated
                   (s\<lparr>posts := posts s @ [\<lparr>post_id = seq s + 1, user_id = u, title = t,
                         description = bind_param descr, url = bind_param link,
                         scheduledAt = None, sent = 0\<rparr>],
                      seq := seq s + 1\<rparr>))
          \<and> seq s + 1 \<notin> post_id ` set (posts s))"
proof -
  have "seq s + 1 \<notin> post_id ` set (posts s)"
  proof
    assume "seq s + 1 \<in> post_id ` set (posts s)"
    then obtain p where "p \<in> set (posts s)" "post_id p = seq s + 1" by auto
    with assms show False by force
  qed
  then show ?thesis
    by (simp add: create_def Let_def)
qed

theorem create_rejects_only_null_title_witness:
  "create (Some 7) 7 Null (Value ''d'') Undefined example_store = (Error_status 500, example_store)
   \<and> fst (create (Some 7) 7 (Value []) (Value ''d'') Undefined example_store) = Ok_id 4
   \<and> 4 \<notin> post_id ` set (posts example_store)"
proof -
  have b: "\<forall>p\<in>set (posts example_store). post_id p \<le> seq example_store"
    by (simp add: example_store_def post_draft_def post_due_def post_later_def)
  have q: "seq example_store = 3" by (simp add: example_store_def)
  from create_rejects_only_null_title [OF b, of Null 7 "Value ''d''" Undefined]
    create_rejects_only_null_title [OF b, of "Value []" 7 "Value ''d''" Undefined]
  show ?thesis
    by (simp add: q)
qed

subsection \<open>The sent flag\<close>

lemma all_unsent_posts_eq: "posts s' = posts s \<Longrightarrow> all_unsent s' = all_unsent s"
  by (simp add: all_unsent_def)

lemma all_unsent_subset:
  "set (posts s') \<subseteq> set (posts s) \<Longrightarrow> all_unsent s \<Longrightarrow> all_unsent s'"
  by (auto simp: all_unsent_def list_all_iff)

lemma all_unsent_update_post:
  assumes "\<And>row. sent row = 0 \<Longrightarrow> sent (f row) = 0" and "posts s' = update_post f i (posts s)"
    and "all_unsent s"
  shows "all_unsent s'"
  unfolding all_unsent_def list_all_iff
proof
  fix q assume "q \<in> set (posts s')"
  then have "q \<in> set (update_post f i (posts s))" by (simp only: assms(2))
  from in_update_post [OF this] obtain p where
    p: "p \<in> set (posts s)" "(post_id p = i \<and> q = f p) \<or> (post_id p \<noteq> i \<and> q = p)"
    by blast
  from assms(3) p(1) have "sent p = 0" by (simp add: all_unsent_def list_all_iff)
  with p(2) assms(1) show "sent q = 0" by blast
qed

lemma create_unsent: "all_unsent s \<Longrightarrow> all_unsent (snd (create r u t d l s))"
  by (simp add: create_def all_unsent_def Let_def split: option.splits)

lemma upload_unsent: "all_unsent s \<Longrightarrow> all_unsent (snd (upload r f s))"
  by (simp add: upload_def all_unsent_def Let_def split: option.splits)

lemma update_unsent:
  assumes "all_unsent s"
  shows "all_unsent (snd (update r i t d l w s))"
proof (cases "select_post i (posts s)")
  case None
  with assms show ?thesis by (simp add: update_def)
next
  case (Some p)
  show ?thesis
  proof (cases "verifyOwnershipOrReject p r")
    case (Some e)
    with \<open>select_post i (posts s) = Some p\<close> assms show ?thesis by (simp add: update_def)
  next
    case None
    show ?thesis
    proof (rule all_unsent_update_post [OF _ _ assms])
      show "posts (snd (update r i t d l w s)) = update_post (\<lambda>row. row\<lparr>
           title := (case t of Value v \<Rightarrow> v | Undefined \<Rightarrow> title p | Null \<Rightarrow> title p),
           description := nullish d (description p),
           url := (case l of Undefined \<Rightarrow> url p | Null \<Rightarrow> None | Value u \<Rightarrow> Some u),
           scheduledAt := nullish w (scheduledAt p)\<rparr>) i (posts s)"
        using None \<open>select_post i (posts s) = Some p\<close> by (simp add: update_def Let_def)
    qed simp
  qed
qed

lemma delete_post_unsent:
  assumes "all_unsent s"
  shows "all_unsent (snd (delete_post r i s))"
proof -
  have "set (posts (snd (delete_post r i s))) \<subseteq> set (posts s)"
    by (auto simp: delete_post_def Let_def split: option.splits)
  then show ?thesis using assms by (rule all_unsent_subset)
qed

lemma delete_image_unsent:
  assumes "all_unsent s"
  shows "all_unsent (snd (delete_image r i s))"
proof (cases "select_post i (posts s)")
  case None
  with assms show ?thesis by (simp add: delete_image_def)
next
  case (Some p)
  show ?thesis
  proof (cases "verifyOwnershipOrReject p r")
    case (Some e)
    with \<open>select_post i (posts s) = Some p\<close> assms show ?thesis
      by (simp add: delete_image_def)
  next
    case None
    show ?thesis
    proof (rule all_unsent_update_post [OF _ _ assms])
      show "posts (snd (delete_image r i s)) = update_post (\<lambda>row. row\<lparr>url := None\<rparr>) i (posts s)"
        using None \<open>select_post i (posts s) = Some p\<close> by (simp add: delete_image_def Let_def)
    qed simp
  qed
qed

lemma schedulePost_unsent:
  assumes "all_unsent s"
  shows "all_unsent (snd (schedulePost r i w s))"
proof (cases "select_post i (posts s)")
  case None
  with assms show ?thesis by (simp add: schedulePost_def)
next
  case (Some p)
  show ?thesis
  proof (cases "verifyOwnershipOrReject p r")
    case (Some e)
    with \<open>select_post i (posts s) = Some p\<close> assms show ?thesis
      by (simp add: schedulePost_def)
  next
    case None
    show ?thesis
    proof (rule all_unsent_update_post [OF _ _ assms])
      show "posts (snd (schedulePost r i w s))
              = update_post (\<lambda>row. row\<lparr>scheduledAt := bind_param w, sent := 0\<rparr>) i (posts s)"
        using None \<open>select_post i (posts s) = Some p\<close> by (simp add: schedulePost_def)
    qed simp
  qed
qed

lemma cancelSchedule_unsent:
  assumes "all_unsent s"
  shows "all_unsent (snd (cancelSchedule r i s))"
proof (cases "select_post i (posts s)")
  case None
  with assms show ?thesis by (simp add: cancelSchedule_def)
next
  case (Some p)
  show ?thesis
  proof (cases "verifyOwnershipOrReject p r")
    case (Some e)
    with \<open>select_post i (posts s) = Some p\<close> assms show ?thesis
      by (simp add: cancelSchedule_def)
  next
    case None
    show ?thesis
    proof (rule all_unsent_update_post [OF _ _ assms])
      show "posts (snd (cancelSchedule r i s))
              = update_post (\<lambda>row. row\<lparr>scheduledAt := None\<rparr>) i (posts s)"
        using None \<open>select_post i (posts s) = Some p\<close> by (simp add: cancelSchedule_def)
    qed simp
  qed
qed

lemma sendPost_unsent:
  assumes "all_unsent s"
  shows "all_unsent (snd (sendPost gw r us i s))"
proof (cases "sendPost_lookup r us i s")
  case (Inl e)
  with assms show ?thesis by (simp add: sendPost_def)
next
  case (Inr up)
  obtain u p where "up = (u, p)" by (cases up)
  with Inr have "snd (sendPost gw r us i s) = snd (sendPost_deliver gw u p i s)"
    by (simp add: sendPost_def)
  with sendPost_deliver_posts [of gw u p i s] assms show ?thesis
    by (simp add: all_unsent_subset)
qed

lemma scan_tick_posts: "set (posts (scan_tick gw users now s)) \<subseteq> set (posts s)"
  using deliver_all_posts [of gw users "claimDueCandidates now s" s]
  by (simp add: scan_tick_def Let_def)

lemma scan_tick_unsent: "all_unsent s \<Longrightarrow> all_unsent (scan_tick gw users now s)"
  using scan_tick_posts [of gw users now s] by (rule all_unsent_subset)

lemma clients_update_unsent: "all_unsent (s\<lparr>clients := c\<rparr>) = all_unsent s"
  by (simp add: all_unsent_def)

lemma handle_unsent: "all_unsent s \<Longrightarrow> all_unsent (handle e s)"
  by (cases e)
     (simp_all add: create_unsent upload_unsent update_unsent delete_post_unsent
      delete_image_unsent schedulePost_unsent cancelSchedule_unsent sendPost_unsent
      scan_tick_unsent clients_update_unsent)

text \<open>
  C9. The \<open>sent\<close> flag of every stored row is 0: it is so in the new table, and every
  request, tick and WebSocket event keeps it so, hence every sequence of them. (A new
  row is inserted with the default 0, scheduling writes 0, the other statements do not
  write the column, and a delivered post is deleted.)
\<close>

theorem sent_flag_always_zero:
  "all_unsent initial \<and> (all_unsent s \<longrightarrow> all_unsent (run es s))"
proof
  show "all_unsent initial" by (simp add: all_unsent_def initial_def)
  show "all_unsent s \<longrightarrow> all_unsent (run es s)"
    by (induction es arbitrary: s) (simp_all add: handle_unsent)
qed

theorem sent_flag_always_zero_witness:
  "all_unsent initial \<and> all_unsent (run example_events initial)
   \<and> posts (run example_events initial)
       = [\<lparr>post_id = 1, user_id = 7, title = ''Z'', description = Some ''Y'', url = None,
           scheduledAt = Some ''2025-12-31T23:59:59.000Z'', sent = 0\<rparr>]"
proof -
  have "posts (run example_events initial)
       = [\<lparr>post_id = 1, user_id = 7, title = ''Z'', description = Some ''Y'', url = None,
           scheduledAt = Some ''2025-12-31T23:59:59.000Z'', sent = 0\<rparr>]"
    by (simp add: example_events_def initial_def create_def schedulePost_def update_def
        scan_tick_def claimDueCandidates_def due_def send_rendered_def call_gateway_def
        always_fails_def example_users_def example_now_def select_post_def update_post_def
        verifyOwnershipOrReject_def broadcast_def Let_def unlink_if_exists_def local_file_def)
  with sent_flag_always_zero [of initial example_events] show ?thesis
    by simp
qed

subsection \<open>Sorting the listing\<close>

lemma order_key_listed:
  "order_key datetime p \<le> order_key datetime q \<Longrightarrow> listed_before datetime p q"
  by (cases "scheduledAt p"; cases "scheduledAt q")
     (auto simp: order_key_def listed_before_def less_eq_prod_def less_prod_def)

lemma sorted_select_by_owner:
  "sorted_wrt (listed_before datetime) (select_by_owner datetime uid s)"
proof -
  have "sorted (map (order_key datetime) (select_by_owner datetime uid s))"
    by (simp add: select_by_owner_def)
  then have "sorted_wrt (\<lambda>p q. order_key datetime p \<le> order_key datetime q)
               (select_by_owner datetime uid s)"
    by (simp add: sorted_map)
  then show ?thesis
    by (rule sorted_wrt_mono_rel [rotated]) (simp add: order_key_listed)
qed

lemma sort_three:
  assumes m: "mset xs = {#A, B, C#}"
    and ab: "f C < f B" and bc: "f B < (f A :: 'k :: linorder)"
  shows "sort_key f xs = [C, B, A]"
proof (rule properties_for_sort_key)
  show "mset [C, B, A] = mset xs" using m by (simp add: add_mset_commute)
next
  show "sorted (map f [C, B, A])" using ab bc by auto
next
  fix k assume k: "k \<in> set [C, B, A]"
  have ne: "f A \<noteq> f B" "f A \<noteq> f C" "f B \<noteq> f C" using ab bc by auto
  have "mset (filter (\<lambda>x. f k = f x) xs) = filter_mset (\<lambda>x. f k = f x) (mset xs)"
    by (rule mset_filter)
  also have "\<dots> = filter_mset (\<lambda>x. f k = f x) {#A, B, C#}"
    by (simp only: m)
  also have "\<dots> = {#k#}"
    using k ne by auto
  finally have "mset (filter (\<lambda>x. f k = f x) xs) = {#k#}" .
  then have "filter (\<lambda>x. f k = f x) xs = [k]" by (simp only: mset_single_iff)
  moreover have "filter (\<lambda>x. f k = f x) [C, B, A] = [k]"
    using k ne by auto
  ultimately show "filter (\<lambda>x. f k = f x) [C, B, A] = filter (\<lambda>x. f k = f x) xs"
    by simp
qed

subsection \<open>Manual dispatch and the scan\<close>

lemma select_post_distinct:
  assumes "distinct (map post_id ps)" and "P \<in> set ps"
  shows "select_post (post_id P) ps = Some P"
proof (cases "select_post (post_id P) ps")
  case None
  then have "\<forall>q\<in>set ps. post_id q \<noteq> post_id P"
    by (simp add: select_post_def find_None_iff)
  with assms(2) show ?thesis by blast
next
  case (Some q)
  from select_post_Some [OF Some] have "q \<in> set ps" "post_id q = post_id P" by simp_all
  with assms have "q = P" by (simp add: same_id_same_post)
  with Some show ?thesis by simp
qed

lemma select_post_absent:
  "\<forall>q\<in>set ps. post_id q \<noteq> i \<Longrightarrow> select_post i ps = None"
  by (simp add: select_post_def find_None_iff)

lemma send_rendered_accepted:
  assumes "\<forall>n c. gw n c"
  shows "fst (send_rendered gw u p s)"
  using assms
  by (simp add: send_rendered_def call_gateway_def Let_def split: option.splits)

lemma deliver_all_accepted:
  assumes "\<forall>n c. gw n c"
  shows "\<exists>new. channel_log (deliver_all gw users cs s) = channel_log s @ new
           \<and> (\<forall>a\<in>set new. delivered_ok a)"
proof (induction cs arbitrary: s)
  case Nil
  show ?case by simp
next
  case (Cons p rest)
  show ?case
  proof (cases "users (user_id p)")
    case None
    with Cons.IH [of s] show ?thesis by simp
  next
    case (Some u)
    obtain ok s1 where sr: "send_rendered gw u p s = (ok, s1)"
      by (cases "send_rendered gw u p s")
    from send_rendered_accepted [OF assms, of u p s] sr have ok: "ok" by simp
    from send_rendered_effect [OF sr] obtain c where
      l1: "channel_log s1 = channel_log s @ [\<lparr>for_post = post_id p, request = c, delivered_ok = ok\<rparr>]"
      by blast
    let ?s2 = "snd (markDelivered (post_id p) s1)"
    have step: "deliver_all gw users (p # rest) s = deliver_all gw users rest ?s2"
      using Some sr ok by simp
    from Cons.IH [of ?s2] obtain new2 where
      h: "channel_log (deliver_all gw users rest ?s2) = channel_log ?s2 @ new2"
         "\<forall>a\<in>set new2. delivered_ok a"
      by blast
    have "channel_log (deliver_all gw users (p # rest) s)
            = channel_log s @ (\<lparr>for_post = post_id p, request = c, delivered_ok = ok\<rparr> # new2)"
      using step h(1) l1 by simp
    moreover have "\<forall>a\<in>set (\<lparr>for_post = post_id p, request = c, delivered_ok = ok\<rparr> # new2).
                     delivered_ok a"
      using h(2) ok by simp
    ultimately show ?thesis by blast
  qed
qed

lemma successful_calls_append:
  "channel_log s' = channel_log s @ new
     \<Longrightarrow> successful_calls i s'
           = successful_calls i s @ filter (\<lambda>a. for_post a = i \<and> delivered_ok a) new"
  by (simp add: successful_calls_def)

lemma occurs_once:
  "distinct xs \<Longrightarrow> x \<in> set xs \<Longrightarrow> length (filter (\<lambda>y. y = x) xs) = 1"
proof (induction xs)
  case Nil
  then show ?case by simp
next
  case (Cons a xs)
  show ?case
  proof (cases "a = x")
    case True
    with Cons.prems have "filter (\<lambda>y. y = x) xs = []"
      by (auto simp: filter_empty_conv)
    with True show ?thesis by simp
  next
    case False
    with Cons show ?thesis by simp
  qed
qed

lemma scan_tick_accepted:
  assumes gw: "\<forall>n c. gw n c"
  shows "\<exists>new. channel_log (scan_tick gw users now s) = channel_log s @ new
     \<and> map for_post new
         = map post_id (filter (\<lambda>p. users (user_id p) \<noteq> None) (claimDueCandidates now s))
     \<and> posts (scan_tick gw users now s)
         = filter (\<lambda>q. \<not> (\<exists>a\<in>set new. for_post a = post_id q \<and> delivered_ok a)) (posts s)
     \<and> (\<forall>a\<in>set new. delivered_ok a)"
proof -
  from scan_tick_effect [of gw users now s] obtain new where
    h: "channel_log (scan_tick gw users now s) = channel_log s @ new"
       "map for_post new
         = map post_id (filter (\<lambda>p. users (user_id p) \<noteq> None) (claimDueCandidates now s))"
       "posts (scan_tick gw users now s)
         = filter (\<lambda>q. \<not> (\<exists>a\<in>set new. for_post a = post_id q \<and> delivered_ok a)) (posts s)"
    by blast
  from deliver_all_accepted [OF gw, of users "claimDueCandidates now s" s] obtain new' where
    k: "channel_log (deliver_all gw users (claimDueCandidates now s) s) = channel_log s @ new'"
       "\<forall>a\<in>set new'. delivered_ok a"
    by blast
  have "channel_log (scan_tick gw users now s)
          = channel_log (deliver_all gw users (claimDueCandidates now s) s)"
    by (simp add: scan_tick_def Let_def)
  with k(1) have "channel_log (scan_tick gw users now s) = channel_log s @ new'"
    by simp
  with h(1) have "new' = new" by simp
  with h k(2) show ?thesis by blast
qed

lemma tick_calls_for_post:
  assumes gw: "\<forall>n c. gw n c" and pk: "distinct (map post_id (posts s))"
  shows "length (successful_calls i (scan_tick gw users now s))
       = length (successful_calls i s)
         + (if \<exists>p\<in>set (claimDueCandidates now s). post_id p = i \<and> users (user_id p) \<noteq> None
            then 1 else 0)"
    and "(\<exists>p\<in>set (claimDueCandidates now s). post_id p = i \<and> users (user_id p) \<noteq> None)
       \<Longrightarrow> \<forall>q\<in>set (posts (scan_tick gw users now s)). post_id q \<noteq> i"
proof -
  from scan_tick_accepted [OF gw, of users now s] obtain new where
    h: "channel_log (scan_tick gw users now s) = channel_log s @ new"
       "map for_post new
         = map post_id (filter (\<lambda>p. users (user_id p) \<noteq> None) (claimDueCandidates now s))"
       "posts (scan_tick gw users now s)
         = filter (\<lambda>q. \<not> (\<exists>a\<in>set new. for_post a = post_id q \<and> delivered_ok a)) (posts s)"
       "\<forall>a\<in>set new. delivered_ok a"
    by blast
  let ?owned = "filter (\<lambda>p. users (user_id p) \<noteq> None) (claimDueCandidates now s)"
  have d: "distinct (map for_post new)"
    unfolding h(2) claimDueCandidates_def using pk by (simp add: distinct_map_filter)
  have mem: "i \<in> set (map for_post new)
      \<longleftrightarrow> (\<exists>p\<in>set (claimDueCandidates now s). post_id p = i \<and> users (user_id p) \<noteq> None)"
    unfolding h(2) by auto
  have "filter (\<lambda>a. for_post a = i \<and> delivered_ok a) new = filter (\<lambda>a. for_post a = i) new"
    using h(4) by (auto intro: filter_cong)
  then have "length (filter (\<lambda>a. for_post a = i \<and> delivered_ok a) new)
           = length (filter (\<lambda>y. y = i) (map for_post new))"
    by (simp add: filter_map comp_def)
  also have "\<dots> = (if i \<in> set (map for_post new) then 1 else 0)"
  proof (cases "i \<in> set (map for_post new)")
    case True
    from occurs_once [OF d True] True show ?thesis by (simp only: if_True)
  next
    case False
    then have "filter (\<lambda>y. y = i) (map for_post new) = []"
      by (simp only: filter_empty_conv) blast
    with False show ?thesis by (simp only: if_False list.size)
  qed
  also have "\<dots> = (if \<exists>p\<in>set (claimDueCandidates now s).
                            post_id p = i \<and> users (user_id p) \<noteq> None then 1 else 0)"
    by (simp only: mem)
  finally have cnt: "length (filter (\<lambda>a. for_post a = i \<and> delivered_ok a) new)
       = (if \<exists>p\<in>set (claimDueCandidates now s). post_id p = i \<and> users (user_id p) \<noteq> None
          then 1 else 0)" .
  show "length (successful_calls i (scan_tick gw users now s))
       = length (successful_calls i s)
         + (if \<exists>p\<in>set (claimDueCandidates now s). post_id p = i \<and> users (user_id p) \<noteq> None
            then 1 else 0)"
    by (simp only: successful_calls_append [OF h(1)] length_append cnt)
  assume "\<exists>p\<in>set (claimDueCandidates now s). post_id p = i \<and> users (user_id p) \<noteq> None"
  with mem have "i \<in> set (map for_post new)" by simp
  then obtain a where "a \<in> set new" "for_post a = i" by auto
  with h(4) have "\<exists>a\<in>set new. for_post a = i \<and> delivered_ok a" by blast
  then show "\<forall>q\<in>set (posts (scan_tick gw users now s)). post_id q \<noteq> i"
    unfolding h(3) by auto
qed

lemma sendPost_accepted:
  assumes gw: "\<forall>n c. gw n c" and pk: "distinct (map post_id (posts s))"
    and P: "P \<in> set (posts s)" and owner: "users (user_id P) = Some u"
  shows "length (successful_calls (post_id P)
                  (snd (sendPost gw (Some (user_id P)) users (post_id P) s)))
           = length (successful_calls (post_id P) s) + 1"
    and "posts (snd (sendPost gw (Some (user_id P)) users (post_id P) s))
           = filter (\<lambda>q. post_id q \<noteq> post_id P) (posts s)"
proof -
  have look: "sendPost_lookup (Some (user_id P)) users (post_id P) s = Inr (u, P)"
    using select_post_distinct [OF pk P] owner
    by (simp add: sendPost_lookup_def verifyOwnershipOrReject_def)
  obtain ok s1 where sr: "send_rendered gw u P s = (ok, s1)"
    by (cases "send_rendered gw u P s")
  from send_rendered_accepted [OF gw, of u P s] sr have ok: "ok" by simp
  from send_rendered_effect [OF sr] obtain c where
    e: "posts s1 = posts s"
       "channel_log s1 = channel_log s @ [\<lparr>for_post = post_id P, request = c, delivered_ok = ok\<rparr>]"
    by blast
  have res: "snd (sendPost gw (Some (user_id P)) users (post_id P) s)
               = broadcast Posts_updated (snd (markDelivered (post_id P) s1))"
    using look sr ok by (simp add: sendPost_def sendPost_deliver_def)
  have "channel_log (snd (sendPost gw (Some (user_id P)) users (post_id P) s))
          = channel_log s @ [\<lparr>for_post = post_id P, request = c, delivered_ok = ok\<rparr>]"
    by (simp add: res e)
  from successful_calls_append [OF this, of "post_id P"] ok
  show "length (successful_calls (post_id P)
                  (snd (sendPost gw (Some (user_id P)) users (post_id P) s)))
           = length (successful_calls (post_id P) s) + 1"
    by simp
  show "posts (snd (sendPost gw (Some (user_id P)) users (post_id P) s))
           = filter (\<lambda>q. post_id q \<noteq> post_id P) (posts s)"
    by (simp add: res e)
qed

text \<open>
  C1, amended. The handlers hold no claim on a post. When a tick of the scan and a
  manual dispatch of a due post \<open>P\<close> run one after the other, in either order, on a
  table with distinct ids, \<open>P\<close>'s owner being in the users database and asking for the
  dispatch, and the gateway accepting every call, then exactly one successful call of
  the gateway is made for \<open>P\<close>.
\<close>

theorem sequential_dispatch_delivers_once:
  assumes pk: "distinct (map post_id (posts s))"
    and P: "P \<in> set (claimDueCandidates now s)"
    and owner: "users (user_id P) = Some u"
    and gw: "\<forall>n c. gw n c"
  shows "length (successful_calls (post_id P)
           (snd (sendPost gw (Some (user_id P)) users (post_id P) (scan_tick gw users now s))))
         = length (successful_calls (post_id P) s) + 1
       \<and> length (successful_calls (post_id P)
           (scan_tick gw users now (snd (sendPost gw (Some (user_id P)) users (post_id P) s))))
         = length (successful_calls (post_id P) s) + 1"
proof
  have cand: "\<exists>p\<in>set (claimDueCandidates now s).
                post_id p = post_id P \<and> users (user_id p) \<noteq> None"
    using P owner by auto
  from tick_calls_for_post(2) [OF gw pk cand]
  have "select_post (post_id P) (posts (scan_tick gw users now s)) = None"
    by (rule select_post_absent)
  then have "snd (sendPost gw (Some (user_id P)) users (post_id P) (scan_tick gw users now s))
               = scan_tick gw users now s"
    by (simp add: sendPost_def sendPost_lookup_def)
  with tick_calls_for_post(1) [OF gw pk, of "post_id P" users now] cand
  show "length (successful_calls (post_id P)
           (snd (sendPost gw (Some (user_id P)) users (post_id P) (scan_tick gw users now s))))
         = length (successful_calls (post_id P) s) + 1"
    by simp
next
  let ?s2 = "snd (sendPost gw (Some (user_id P)) users (post_id P) s)"
  from P have Ps: "P \<in> set (posts s)" by (simp add: claimDueCandidates_def)
  note m = sendPost_accepted [where gw = gw and users = users and P = P and u = u and s = s,
      OF gw pk Ps owner]
  have pk2: "distinct (map post_id (posts ?s2))"
    using pk by (simp add: m(2) distinct_map_filter)
  have none: "\<not> (\<exists>p\<in>set (claimDueCandidates now ?s2).
                post_id p = post_id P \<and> users (user_id p) \<noteq> None)"
    by (simp add: claimDueCandidates_def m(2))
  from tick_calls_for_post(1) [OF gw pk2, of "post_id P" users now] none m(1)
  show "length (successful_calls (post_id P) (scan_tick gw users now ?s2))
         = length (successful_calls (post_id P) s) + 1"
    by simp
qed

lemma example_store_distinct: "distinct (map post_id (posts example_store))"
  by (simp add: example_store_def post_draft_def post_due_def post_later_def)

lemma example_store_due: "claimDueCandidates example_now example_store = [post_due]"
  by (simp add: claimDueCandidates_def due_def example_store_def example_now_def
      post_draft_def post_due_def post_later_def)

theorem sequential_dispatch_delivers_once_witness:
  "distinct (map post_id (posts example_store))
   \<and> post_due \<in> set (claimDueCandidates example_now example_store)
   \<and> example_users (user_id post_due) = Some example_user
   \<and> (\<forall>n c. always_succeeds n c)
   \<and> length (successful_calls 2
        (snd (sendPost always_succeeds (Some 7) example_users 2
               (scan_tick always_succeeds example_users example_now example_store)))) = 1
   \<and> length (successful_calls 2
        (scan_tick always_succeeds example_users example_now
           (snd (sendPost always_succeeds (Some 7) example_users 2 example_store)))) = 1"
proof -
  have p: "post_due \<in> set (claimDueCandidates example_now example_store)"
    by (simp add: example_store_due)
  have o: "example_users (user_id post_due) = Some example_user"
    by (simp add: example_users_def post_due_def)
  have g: "\<forall>n c. always_succeeds n c"
    by (simp add: always_succeeds_def)
  have i: "post_id post_due = 2" "user_id post_due = 7"
    by (simp_all add: post_due_def)
  have z: "successful_calls 2 example_store = []"
    by (simp add: successful_calls_def example_store_def)
  from sequential_dispatch_delivers_once [where s = example_store and P = post_due
      and now = example_now and users = example_users and u = example_user
      and gw = always_succeeds, OF example_store_distinct p o g]
  show ?thesis
    using example_store_distinct p o g by (simp add: i z)
qed

text \<open>
  C1, as stated, fails: when the manual dispatch has read the post before the tick
  deletes it, the tick and the manual dispatch both send it, and both calls succeed.
\<close>

theorem concurrent_dispatch_counterexample:
  "fst (sendPost_during_scan always_succeeds (Some 7) example_users example_now 2 example_store)
     = Ok_json
   \<and> map request (successful_calls 2
        (snd (sendPost_during_scan always_succeeds (Some 7) example_users example_now 2
               example_store)))
     = [SendMessage (Some ''token'') (Some ''@channel'') (caption post_due),
        SendMessage (Some ''token'') (Some ''@channel'') (caption post_due)]"
proof -
  have look: "sendPost_lookup (Some 7) example_users 2 example_store
                = Inr (example_user, post_due)"
    by (simp add: sendPost_lookup_def select_post_def verifyOwnershipOrReject_def
        example_store_def post_draft_def post_due_def post_later_def example_users_def)
  have tick: "scan_tick always_succeeds example_users example_now example_store
      = \<lparr>posts = [post_draft, post_later], seq = 3, uploads = {},
         clients = [\<lparr>readyState = 1, inbox = [Posts_updated]\<rparr>, \<lparr>readyState = 3, inbox = []\<rparr>],
         channel_log =
           [\<lparr>for_post = 2,
             request = SendMessage (Some ''token'') (Some ''@channel'') (caption post_due),
             delivered_ok = True\<rparr>]\<rparr>"
    by (simp add: scan_tick_def example_store_due Let_def)
       (simp add: example_store_def example_users_def example_user_def post_draft_def
        post_due_def post_later_def send_rendered_def call_gateway_def always_succeeds_def
        Let_def markDelivered_def broadcast_def)
  show ?thesis
    unfolding sendPost_during_scan_def look tick
    by (simp add: sendPost_deliver_def send_rendered_def call_gateway_def always_succeeds_def
        Let_def markDelivered_def broadcast_def successful_calls_def example_user_def
        post_due_def)
qed

subsection \<open>The primary key\<close>

text \<open>
  The hypotheses on the ids used above hold in every state the program reaches from
  the new table: every request, tick and WebSocket event keeps \<open>well_keyed\<close>.
\<close>

lemma well_keyed_filter:
  assumes "posts s' = filter Q (posts s)" and "seq s' = seq s" and "well_keyed s"
  shows "well_keyed s'"
  using assms by (simp add: well_keyed_def distinct_map_filter list_all_iff)

lemma well_keyed_same:
  assumes "posts s' = posts s" and "seq s' = seq s" and "well_keyed s"
  shows "well_keyed s'"
  using assms by (simp add: well_keyed_def)

lemma update_post_ids:
  assumes "\<And>row. post_id (f row) = post_id row"
  shows "map post_id (update_post f i ps) = map post_id ps"
  by (induction ps) (simp_all add: update_post_def assms)

lemma well_keyed_update_post:
  assumes f: "\<And>row. post_id (f row) = post_id row"
    and p: "posts s' = update_post f i (posts s)" and q: "seq s' = seq s"
    and w: "well_keyed s"
  shows "well_keyed s'"
proof -
  have m: "map post_id (posts s') = map post_id (posts s)"
    by (simp add: p update_post_ids [of f, OF f])
  have "list_all (\<lambda>p. post_id p \<le> seq s) (posts s) = list_all (\<lambda>x. x \<le> seq s) (map post_id (posts s))"
    by (simp add: list_all_iff)
  moreover have "list_all (\<lambda>p. post_id p \<le> seq s) (posts s') = list_all (\<lambda>x. x \<le> seq s) (map post_id (posts s'))"
    by (simp add: list_all_iff)
  ultimately show ?thesis
    using w by (simp add: well_keyed_def m q)
qed

lemma create_keyed: "well_keyed s \<Longrightarrow> well_keyed (snd (create r u t d l s))"
  by (fastforce simp: create_def well_keyed_def Let_def list_all_iff split: option.splits)

lemma upload_keyed: "well_keyed s \<Longrightarrow> well_keyed (snd (upload r f s))"
  by (simp add: upload_def well_keyed_def Let_def split: option.splits)

lemma update_keyed:
  assumes "well_keyed s"
  shows "well_keyed (snd (update r i t d l w s))"
proof (cases "select_post i (posts s)")
  case None
  with assms show ?thesis by (simp add: update_def)
next
  case (Some p)
  show ?thesis
  proof (cases "verifyOwnershipOrReject p r")
    case (Some e)
    with \<open>select_post i (posts s) = Some p\<close> assms show ?thesis by (simp add: update_def)
  next
    case None
    show ?thesis
    proof (rule well_keyed_update_post [OF _ _ _ assms])
      show "posts (snd (update r i t d l w s)) = update_post (\<lambda>row. row\<lparr>
           title := (case t of Value v \<Rightarrow> v | Undefined \<Rightarrow> title p | Null \<Rightarrow> title p),
           description := nullish d (description p),
           url := (case l of Undefined \<Rightarrow> url p | Null \<Rightarrow> None | Value u \<Rightarrow> Some u),
           scheduledAt := nullish w (scheduledAt p)\<rparr>) i (posts s)"
        using None \<open>select_post i (posts s) = Some p\<close> by (simp add: update_def Let_def)
      show "seq (snd (update r i t d l w s)) = seq s"
        using None \<open>select_post i (posts s) = Some p\<close> by (simp add: update_def Let_def)
    qed simp
  qed
qed

lemma delete_post_keyed:
  assumes "well_keyed s"
  shows "well_keyed (snd (delete_post r i s))"
proof (cases "select_post i (posts s)")
  case None
  with assms show ?thesis by (simp add: delete_post_def)
next
  case (Some p)
  show ?thesis
  proof (cases "verifyOwnershipOrReject p r")
    case (Some e)
    with \<open>select_post i (posts s) = Some p\<close> assms show ?thesis by (simp add: delete_post_def)
  next
    case None
    show ?thesis
    proof (rule well_keyed_filter [OF _ _ assms])
      show "posts (snd (delete_post r i s)) = filter (\<lambda>p. post_id p \<noteq> i) (posts s)"
        using None \<open>select_post i (posts s) = Some p\<close> by (simp add: delete_post_def Let_def)
      show "seq (snd (delete_post r i s)) = seq s"
        using None \<open>select_post i (posts s) = Some p\<close> by (simp add: delete_post_def Let_def)
    qed
  qed
qed

lemma delete_image_keyed:
  assumes "well_keyed s"
  shows "well_keyed (snd (delete_image r i s))"
proof (cases "select_post i (posts s)")
  case None
  with assms show ?thesis by (simp add: delete_image_def)
next
  case (Some p)
  show ?thesis
  proof (cases "verifyOwnershipOrReject p r")
    case (Some e)
    with \<open>select_post i (posts s) = Some p\<close> assms show ?thesis by (simp add: delete_image_def)
  next
    case None
    show ?thesis
    proof (rule well_keyed_update_post [OF _ _ _ assms])
      show "posts (snd (delete_image r i s)) = update_post (\<lambda>row. row\<lparr>url := None\<rparr>) i (posts s)"
        using None \<open>select_post i (posts s) = Some p\<close> by (simp add: delete_image_def Let_def)
      show "seq (snd (delete_image r i s)) = seq s"
        using None \<open>select_post i (posts s) = Some p\<close> by (simp add: delete_image_def Let_def)
    qed simp
  qed
qed

lemma schedulePost_keyed:
  assumes "well_keyed s"
  shows "well_keyed (snd (schedulePost r i w s))"
proof (cases "select_post i (posts s)")
  case None
  with assms show ?thesis by (simp add: schedulePost_def)
next
  case (Some p)
  show ?thesis
  proof (cases "verifyOwnershipOrReject p r")
    case (Some e)
    with \<open>select_post i (posts s) = Some p\<close> assms show ?thesis by (simp add: schedulePost_def)
  next
    case None
    show ?thesis
    proof (rule well_keyed_update_post [OF _ _ _ assms])
      show "posts (snd (schedulePost r i w s))
              = update_post (\<lambda>row. row\<lparr>scheduledAt := bind_param w, sent := 0\<rparr>) i (posts s)"
        using None \<open>select_post i (posts s) = Some p\<close> by (simp add: schedulePost_def)
      show "seq (snd (schedulePost r i w s)) = seq s"
        using None \<open>select_post i (posts s) = Some p\<close> by (simp add: schedulePost_def)
    qed simp
  qed
qed

lemma cancelSchedule_keyed:
  assumes "well_keyed s"
  shows "well_keyed (snd (cancelSchedule r i s))"
proof (cases "select_post i (posts s)")
  case None
  with assms show ?thesis by (simp add: cancelSchedule_def)
next
  case (Some p)
  show ?thesis
  proof (cases "verifyOwnershipOrReject p r")
    case (Some e)
    with \<open>select_post i (posts s) = Some p\<close> assms show ?thesis by (simp add: cancelSchedule_def)
  next
    case None
    show ?thesis
    proof (rule well_keyed_update_post [OF _ _ _ assms])
      show "posts (snd (cancelSchedule r i s))
              = update_post (\<lambda>row. row\<lparr>scheduledAt := None\<rparr>) i (posts s)"
        using None \<open>select_post i (posts s) = Some p\<close> by (simp add: cancelSchedule_def)
      show "seq (snd (cancelSchedule r i s)) = seq s"
        using None \<open>select_post i (posts s) = Some p\<close> by (simp add: cancelSchedule_def)
    qed simp
  qed
qed

lemma sendPost_keyed:
  assumes "well_keyed s"
  shows "well_keyed (snd (sendPost gw r us i s))"
proof (cases "sendPost_lookup r us i s")
  case (Inl e)
  with assms show ?thesis by (simp add: sendPost_def)
next
  case (Inr up)
  obtain u p where up: "up = (u, p)" by (cases up)
  obtain ok s1 where sr: "send_rendered gw u p s = (ok, s1)"
    by (cases "send_rendered gw u p s")
  from send_rendered_effect [OF sr] have e: "posts s1 = posts s" "seq s1 = seq s" by blast+
  show ?thesis
  proof (cases ok)
    case True
    have "posts (snd (sendPost gw r us i s)) = filter (\<lambda>p. post_id p \<noteq> i) (posts s)"
      "seq (snd (sendPost gw r us i s)) = seq s"
      using Inr up sr True e by (simp_all add: sendPost_def sendPost_deliver_def)
    then show ?thesis using assms by (rule well_keyed_filter)
  next
    case False
    have "posts (snd (sendPost gw r us i s)) = posts s"
      "seq (snd (sendPost gw r us i s)) = seq s"
      using Inr up sr False e by (simp_all add: sendPost_def sendPost_deliver_def)
    then show ?thesis using assms by (rule well_keyed_same)
  qed
qed

lemma scan_tick_keyed:
  assumes "well_keyed s"
  shows "well_keyed (scan_tick gw users now s)"
proof -
  from scan_tick_effect [of gw users now s] obtain new where
    h: "channel_log (scan_tick gw users now s) = channel_log s @ new"
       "map for_post new
          = map post_id (filter (\<lambda>p. users (user_id p) \<noteq> None) (claimDueCandidates now s))"
       "posts (scan_tick gw users now s)
          = filter (\<lambda>q. \<not> (\<exists>a\<in>set new. for_post a = post_id q \<and> delivered_ok a)) (posts s)"
       "seq (scan_tick gw users now s) = seq s"
    by blast
  from h(3,4) assms show ?thesis by (rule well_keyed_filter)
qed

lemma clients_update_keyed: "well_keyed (s\<lparr>clients := c\<rparr>) = well_keyed s"
  by (simp add: well_keyed_def)

lemma handle_keyed: "well_keyed s \<Longrightarrow> well_keyed (handle e s)"
  by (cases e)
     (simp_all add: create_keyed upload_keyed update_keyed delete_post_keyed
      delete_image_keyed schedulePost_keyed cancelSchedule_keyed sendPost_keyed
      scan_tick_keyed clients_update_keyed)

lemma run_keyed: "well_keyed s \<Longrightarrow> well_keyed (run es s)"
  by (induction es arbitrary: s) (simp_all add: handle_keyed)

lemma reachable_keyed:
  "distinct (map post_id (posts (run es initial)))"
  "\<forall>p\<in>set (posts (run es initial)). post_id p \<le> seq (run es initial)"
proof -
  have "well_keyed initial" by (simp add: well_keyed_def initial_def)
  then have "well_keyed (run es initial)" by (rule run_keyed)
  then show "distinct (map post_id (posts (run es initial)))"
    "\<forall>p\<in>set (posts (run es initial)). post_id p \<le> seq (run es initial)"
    by (simp_all add: well_keyed_def list_all_iff)
qed

subsection \<open>A delivery of an uploaded file\<close>

text \<open>
  A post whose \<open>url\<close> names a file of the upload directory is sent as a stream of
  that file, and the file is removed after the call succeeded.
\<close>

lemma local_file_example:
  "local_file (post_later\<lparr>url := Some ''http://localhost:4000/uploads/image-1.png''\<rparr>)
     = Some ''image-1.png''"
  "local_file post_later = None"
  by (simp_all add: local_file_def basename_def post_later_def)

lemma send_rendered_example:
  "send_rendered always_succeeds example_user
     (post_later\<lparr>url := Some ''http://localhost:4000/uploads/image-1.png''\<rparr>)
     (example_store\<lparr>uploads := {''image-1.png'', ''image-2.png''}\<rparr>)
   = (True, example_store\<lparr>uploads := {''image-2.png''},
        channel_log := [\<lparr>for_post = 3,
          request = SendPhoto (Some ''token'') (Some ''@channel'') (Stream ''image-1.png'')
                      (''*Later*'' @ [CHR 0x0A, CHR 0x0A]),
          delivered_ok = True\<rparr>]\<rparr>)"
  by (simp add: send_rendered_def call_gateway_def always_succeeds_def example_user_def
      post_later_def example_store_def basename_def caption_def Let_def)

subsection \<open>The order of timestamps as text\<close>

text \<open>
  Two texts of the same shape are in the order of TEXT values exactly when their fields
  are in lexicographic order.
\<close>

lemma digit_val_le: "is_digit c \<Longrightarrow> digit_val c \<le> 9"
  by (simp add: is_digit_def digit_val_def less_eq_char_def) arith

lemma digit_compare:
  assumes "is_digit c" and "is_digit d"
  shows "(c < d) = (digit_val c < digit_val d)" and "(c = d) = (digit_val c = digit_val d)"
proof -
  from assms have b: "48 \<le> (of_char c :: nat)" "48 \<le> (of_char d :: nat)"
    by (simp_all add: is_digit_def less_eq_char_def)
  then show "(c < d) = (digit_val c < digit_val d)"
    by (auto simp: less_char_def digit_val_def)
  have "(c = d) = ((of_char c :: nat) = of_char d)" by simp
  also have "\<dots> = ((of_char c :: nat) - 48 = of_char d - 48)"
    using b by arith
  finally show "(c = d) = (digit_val c = digit_val d)"
    by (simp only: digit_val_def)
qed

lemma number_bound: "list_all is_digit cs \<Longrightarrow> number cs < 10 ^ length cs"
proof (induction cs)
  case Nil
  show ?case by simp
next
  case (Cons c cs)
  then have "digit_val c \<le> 9" and "number cs < 10 ^ length cs"
    by (simp_all add: digit_val_le)
  then have "digit_val c * 10 ^ length cs + number cs < 9 * 10 ^ length cs + 10 ^ length cs"
    by (meson add_le_less_mono mult_le_mono1)
  then show ?case by simp
qed

lemma mixed_radix_less:
  fixes a b r q N :: nat
  assumes "r < N" and "q < N"
  shows "(a * N + r < b * N + q) = (a < b \<or> (a = b \<and> r < q))"
proof (cases a b rule: linorder_cases)
  case less
  then have "Suc a \<le> b" by simp
  then have "Suc a * N \<le> b * N" by (rule mult_le_mono1)
  with assms have "a * N + r < b * N + q" by simp
  with less show ?thesis by simp
next
  case equal
  then show ?thesis by simp
next
  case greater
  then have "Suc b \<le> a" by simp
  then have "Suc b * N \<le> a * N" by (rule mult_le_mono1)
  with assms have "b * N + q < a * N + r" by simp
  with greater show ?thesis by simp
qed

lemma mixed_radix_eq:
  fixes a b r q N :: nat
  assumes "r < N" and "q < N"
  shows "(a * N + r = b * N + q) = (a = b \<and> r = q)"
  using mixed_radix_less [OF assms, of a b] mixed_radix_less [OF assms(2,1), of b a]
  by auto

lemma digits_compare:
  assumes "length x = length y" and "list_all is_digit x" and "list_all is_digit y"
  shows "(x < y) = (number x < number y) \<and> (x = y) = (number x = number y)"
  using assms
proof (induction x y rule: list_induct2)
  case Nil
  show ?case by simp
next
  case (Cons c cs d ds)
  then have dg: "is_digit c" "is_digit d" and rest: "list_all is_digit cs" "list_all is_digit ds"
    by simp_all
  from Cons.IH [OF rest] have ih: "(cs < ds) = (number cs < number ds)"
    "(cs = ds) = (number cs = number ds)" by simp_all
  from number_bound [OF rest(1)] number_bound [OF rest(2)] Cons.hyps
  have bd: "number cs < 10 ^ length cs" "number ds < 10 ^ length cs" by simp_all
  have "(c # cs < d # ds) = (c < d \<or> (c = d \<and> cs < ds))" by simp
  also have "\<dots> = (digit_val c < digit_val d \<or> (digit_val c = digit_val d \<and> number cs < number ds))"
    by (simp only: digit_compare [OF dg] ih)
  also have "\<dots> = (number (c # cs) < number (d # ds))"
    using mixed_radix_less [OF bd, of "digit_val c" "digit_val d"] Cons.hyps by simp
  finally have l: "(c # cs < d # ds) = (number (c # cs) < number (d # ds))" .
  have "(c # cs = d # ds) = (digit_val c = digit_val d \<and> number cs = number ds)"
    by (simp add: digit_compare [OF dg] ih)
  also have "\<dots> = (number (c # cs) = number (d # ds))"
    using mixed_radix_eq [OF bd, of "digit_val c" "digit_val d"] Cons.hyps by simp
  finally show ?case using l by simp
qed

lemma append_le_same_length:
  fixes x y :: "'a :: linorder list"
  assumes "length x = length y"
  shows "(x @ xs \<le> y @ ys) = (x < y \<or> (x = y \<and> xs \<le> ys))"
  using assms by (induction x y rule: list_induct2) auto

lemma split_le:
  fixes a b :: "'a :: linorder list"
  assumes "n \<le> length a" and "n \<le> length b"
  shows "(a \<le> b) = (take n a < take n b \<or> (take n a = take n b \<and> drop n a \<le> drop n b))"
proof -
  have "length (take n a) = length (take n b)" using assms by simp
  from append_le_same_length [OF this, of "drop n a" "drop n b"] show ?thesis by simp
qed

lemma shape_order:
  "has_shape ps a \<Longrightarrow> has_shape ps b \<Longrightarrow> (a \<le> b) = (fields ps a \<le> fields ps b)"
proof (induction ps arbitrary: a b)
  case Nil
  then show ?case by simp
next
  case (Cons p ps)
  show ?case
  proof (cases p)
    case (Digits n)
    with Cons.prems have la: "n \<le> length a" "n \<le> length b"
      and da: "list_all is_digit (take n a)" "list_all is_digit (take n b)"
      and ra: "has_shape ps (drop n a)" "has_shape ps (drop n b)"
      by simp_all
    have "length (take n a) = length (take n b)" using la by simp
    from digits_compare [OF this da]
    have dc: "(take n a < take n b) = (number (take n a) < number (take n b))"
      "(take n a = take n b) = (number (take n a) = number (take n b))" by simp_all
    from Cons.IH [OF ra] have ih: "(drop n a \<le> drop n b) = (fields ps (drop n a) \<le> fields ps (drop n b))" .
    show ?thesis
      by (simp only: split_le [OF la] dc ih Digits fields.simps Cons_le_Cons)
  next
    case (Lit l)
    with Cons.prems have ta: "take (length l) a = l" "take (length l) b = l"
      and ra: "has_shape ps (drop (length l) a)" "has_shape ps (drop (length l) b)"
      by simp_all
    from Cons.IH [OF ra]
    have ih: "(drop (length l) a \<le> drop (length l) b)
                = (fields ps (drop (length l) a) \<le> fields ps (drop (length l) b))" .
    have "a = l @ drop (length l) a" "b = l @ drop (length l) b"
      using ta append_take_drop_id [of "length l" a] append_take_drop_id [of "length l" b]
      by simp_all
    then have "(a \<le> b) = (l @ drop (length l) a \<le> l @ drop (length l) b)" by simp
    also have "\<dots> = (drop (length l) a \<le> drop (length l) b)"
      by (simp add: append_le_same_length)
    finally show ?thesis by (simp add: Lit ih)
  qed
qed

lemma iso_instant: "has_shape iso_shape t \<Longrightarrow> utc_instant t = Some (fields iso_shape t)"
  by (simp add: utc_instant_def)

lemma has_shape_length: "has_shape ps t \<Longrightarrow> length t = shape_length ps"
proof (induction ps arbitrary: t)
  case Nil
  then show ?case by simp
next
  case (Cons p ps)
  show ?case
  proof (cases p)
    case (Digits n)
    with Cons.prems have "n \<le> length t" "has_shape ps (drop n t)" by simp_all
    with Cons.IH [of "drop n t"] Digits show ?thesis by simp
  next
    case (Lit l)
    with Cons.prems have t: "take (length l) t = l" and r: "has_shape ps (drop (length l) t)"
      by simp_all
    from t have "length (take (length l) t) = length l" by simp
    then have "length l \<le> length t" by simp
    with Cons.IH [OF r] Lit show ?thesis by simp
  qed
qed

lemma iso_explicit:
  assumes "has_shape iso_shape t"
  shows "\<exists>c0 c1 c2 c3 c4 c5 c6 c7 c8 c9 c10 c11 c12 c13 c14 c15 c16 c17 c18 c19 c20 c21 c22 c23. t = [c0, c1, c2, c3, c4, c5, c6, c7, c8, c9, c10, c11, c12, c13, c14, c15, c16, c17, c18, c19, c20, c21, c22, c23]"
proof -
  from has_shape_length [OF assms] have "length t = 24" by (simp add: iso_shape_def)
  then show ?thesis
    by (auto simp: length_Suc_conv eval_nat_numeral)
qed

lemma sql_text:
  assumes "has_shape iso_shape t"
  shows "has_shape sql_shape (take 10 t @ '' '' @ take 8 (drop 11 t))"
    and "fields sql_shape (take 10 t @ '' '' @ take 8 (drop 11 t)) = butlast (fields iso_shape t)"
proof -
  from iso_explicit [OF assms] obtain c0 c1 c2 c3 c4 c5 c6 c7 c8 c9 c10 c11 c12 c13 c14 c15 c16 c17 c18 c19 c20 c21 c22 c23 where
    t: "t = [c0, c1, c2, c3, c4, c5, c6, c7, c8, c9, c10, c11, c12, c13, c14, c15, c16, c17, c18, c19, c20, c21, c22, c23]" by (elim exE)
  from assms show "has_shape sql_shape (take 10 t @ '' '' @ take 8 (drop 11 t))"
    unfolding t by (simp add: iso_shape_def sql_shape_def)
  show "fields sql_shape (take 10 t @ '' '' @ take 8 (drop 11 t)) = butlast (fields iso_shape t)"
    unfolding t by (simp add: iso_shape_def sql_shape_def)
qed

lemma iso_datetime:
  "has_shape iso_shape t \<Longrightarrow> utc_datetime t = Some (take 10 t @ '' '' @ take 8 (drop 11 t))"
  by (simp add: utc_datetime_def)

lemma iso_second:
  "has_shape iso_shape t \<Longrightarrow> utc_second t = Some (butlast (fields iso_shape t))"
  by (simp add: utc_second_def utc_instant_def)

lemma datetime_order:
  assumes a: "has_shape iso_shape a" and b: "has_shape iso_shape b"
  shows "(utc_datetime a \<le> utc_datetime b) = (utc_second a \<le> utc_second b)"
proof -
  have "(utc_datetime a \<le> utc_datetime b)
          = (take 10 a @ '' '' @ take 8 (drop 11 a) \<le> take 10 b @ '' '' @ take 8 (drop 11 b))"
    by (simp only: iso_datetime [OF a] iso_datetime [OF b] less_eq_option_Some)
  also have "\<dots> = (fields sql_shape (take 10 a @ '' '' @ take 8 (drop 11 a))
                        \<le> fields sql_shape (take 10 b @ '' '' @ take 8 (drop 11 b)))"
    by (rule shape_order [OF sql_text(1) [OF a] sql_text(1) [OF b]])
  also have "\<dots> = (butlast (fields iso_shape a) \<le> butlast (fields iso_shape b))"
    by (simp only: sql_text(2) [OF a] sql_text(2) [OF b])
  also have "\<dots> = (utc_second a \<le> utc_second b)"
    by (simp only: iso_second [OF a] iso_second [OF b] less_eq_option_Some)
  finally show ?thesis .
qed

lemma datetime_less:
  assumes a: "has_shape iso_shape a" and b: "has_shape iso_shape b"
  shows "(utc_datetime a < utc_datetime b) = (utc_second a < utc_second b)"
    and "(utc_datetime a = utc_datetime b) = (utc_second a = utc_second b)"
  using datetime_order [OF a b] datetime_order [OF b a]
  by (auto simp: less_le_not_le)

lemma example_shapes:
  "has_shape iso_shape ''2026-06-01T00:00:00.000Z''"
  "has_shape iso_shape ''2025-12-31T23:59:59.000Z''"
  "has_shape iso_shape ''2026-03-01T12:00:00.100Z''"
  "has_shape iso_shape ''2026-03-01T12:00:00.900Z''"
  by (simp_all add: iso_shape_def is_digit_def)

subsection \<open>The candidate query\<close>

text \<open>
  C2, amended. The candidate query returns a post of the store exactly when its
  \<open>scheduledAt\<close> is not NULL, the stored text is not above the text of \<open>now\<close> in the
  order of TEXT values (byte by byte), and its \<open>sent\<close> flag is 0; a draft and a post
  marked as sent are never returned. When the stored text has the shape of
  \<open>toISOString\<close>, as \<open>now\<close> has, this is the test in time: the post is returned
  exactly when the instant of \<open>scheduledAt\<close> is not after the instant of \<open>now\<close>.
\<close>

theorem claimDueCandidates_text_order:
  "(P \<in> set (claimDueCandidates now s) \<longleftrightarrow>
      P \<in> set (posts s) \<and> (\<exists>t. scheduledAt P = Some t \<and> t \<le> now) \<and> sent P = 0)
   \<and> (has_shape iso_shape now \<and> (\<forall>t. scheduledAt P = Some t \<longrightarrow> has_shape iso_shape t) \<longrightarrow>
        (P \<in> set (claimDueCandidates now s) \<longleftrightarrow> P \<in> set (posts s) \<and> due_in_time now P))"
proof (intro conjI impI)
  show "P \<in> set (claimDueCandidates now s) \<longleftrightarrow>
      P \<in> set (posts s) \<and> (\<exists>t. scheduledAt P = Some t \<and> t \<le> now) \<and> sent P = 0"
    by (auto simp: claimDueCandidates_def due_def split: option.splits)
next
  assume h: "has_shape iso_shape now \<and> (\<forall>t. scheduledAt P = Some t \<longrightarrow> has_shape iso_shape t)"
  have "due now P = due_in_time now P"
  proof (cases "scheduledAt P")
    case None
    then show ?thesis by (simp add: due_def due_in_time_def)
  next
    case (Some t)
    with h have st: "has_shape iso_shape t" and sn: "has_shape iso_shape now" by simp_all
    from shape_order [OF st sn] show ?thesis
      by (simp add: due_def due_in_time_def Some iso_instant [OF st] iso_instant [OF sn])
  qed
  then show "P \<in> set (claimDueCandidates now s) \<longleftrightarrow> P \<in> set (posts s) \<and> due_in_time now P"
    by (simp add: claimDueCandidates_def)
qed

theorem claimDueCandidates_text_order_witness:
  "has_shape iso_shape example_now
   \<and> scheduledAt post_due = Some ''2025-12-31T23:59:59.000Z''
   \<and> has_shape iso_shape ''2025-12-31T23:59:59.000Z''
   \<and> due_in_time example_now post_due
   \<and> post_due \<in> set (claimDueCandidates example_now example_store)
   \<and> post_draft \<notin> set (claimDueCandidates example_now example_store)
   \<and> post_later \<notin> set (claimDueCandidates example_now example_store)"
proof -
  have n: "has_shape iso_shape example_now"
    by (simp add: example_now_def iso_shape_def is_digit_def)
  have t: "has_shape iso_shape ''2025-12-31T23:59:59.000Z''"
    by (simp add: iso_shape_def is_digit_def)
  have p: "scheduledAt post_due = Some ''2025-12-31T23:59:59.000Z''"
    by (simp add: post_due_def)
  have d: "due_in_time example_now post_due"
    by (simp add: due_in_time_def post_due_def example_now_def utc_instant_def iso_shape_def
        is_digit_def digit_val_def)
  have m: "post_due \<in> set (posts example_store)"
    by (simp add: example_store_def)
  have h: "has_shape iso_shape example_now
             \<and> (\<forall>t. scheduledAt post_due = Some t \<longrightarrow> has_shape iso_shape t)"
    using n t p by simp
  from claimDueCandidates_text_order [of post_due example_now example_store] h
  have "post_due \<in> set (claimDueCandidates example_now example_store)
          \<longleftrightarrow> post_due \<in> set (posts example_store) \<and> due_in_time example_now post_due"
    by blast
  with m d have i: "post_due \<in> set (claimDueCandidates example_now example_store)"
    by simp
  have o: "post_draft \<notin> set (claimDueCandidates example_now example_store)"
    "post_later \<notin> set (claimDueCandidates example_now example_store)"
    by (simp_all add: example_store_due post_draft_def post_due_def post_later_def)
  from n t p d i o show ?thesis by simp
qed

text \<open>
  C2, as stated, fails: a post scheduled for midnight, written without milliseconds, is
  due in time half a second after midnight, and the query does not return it, since
  \<open>Z\<close> is above the point in the order of bytes.
\<close>

theorem claimDueCandidates_time_counterexample:
  "utc_instant ''2026-01-01T00:00:00Z'' = Some [2026, 1, 1, 0, 0, 0, 0]
   \<and> utc_instant half_past = Some [2026, 1, 1, 0, 0, 0, 500]
   \<and> due_in_time half_past post_short
   \<and> claimDueCandidates half_past (initial\<lparr>posts := [post_short], seq := 4\<rparr>) = []"
  by (simp add: due_in_time_def claimDueCandidates_def due_def post_short_def half_past_def
      initial_def utc_instant_def iso_shape_def short_shape_def is_digit_def digit_val_def)

subsection \<open>The order of the listing\<close>

text \<open>
  C5, amended. The listing of an owner holds exactly the owner's rows, ordered by
  \<open>listed_before\<close>: scheduled posts before unscheduled ones, scheduled posts by
  ascending \<open>datetime(scheduledAt)\<close>, and posts of equal \<open>datetime\<close>, as all
  unscheduled posts are, by descending id. When the owner's posts are \<open>A\<close> without a
  schedule, \<open>B\<close> scheduled at \<open>T1\<close> and \<open>C\<close> scheduled at \<open>T2\<close>, the listing is
  \<open>[C, B, A]\<close> if \<open>datetime T2 < datetime T1\<close>; for timestamps of the shape of
  \<open>toISOString\<close> that is: if \<open>T2\<close> is in an earlier second than \<open>T1\<close>. If they are
  in the same second and \<open>B\<close> is the newer post, the listing is \<open>[B, C, A]\<close>.
\<close>

theorem listByOwner_order:
  "listByOwner datetime (Some uid) uid s = Ok_posts (select_by_owner datetime uid s)
   \<and> mset (select_by_owner datetime uid s) = mset (filter (\<lambda>p. user_id p = uid) (posts s))
   \<and> sorted_wrt (listed_before datetime) (select_by_owner datetime uid s)
   \<and> (mset (filter (\<lambda>p. user_id p = uid) (posts s)) = {#A, B, C#}
        \<and> scheduledAt A = None \<and> scheduledAt B = Some T1 \<and> scheduledAt C = Some T2
      \<longrightarrow>
        (datetime T2 < datetime T1 \<longrightarrow> select_by_owner datetime uid s = [C, B, A])
      \<and> (has_shape iso_shape T1 \<and> has_shape iso_shape T2 \<and> utc_second T2 < utc_second T1
          \<longrightarrow> select_by_owner utc_datetime uid s = [C, B, A])
      \<and> (has_shape iso_shape T1 \<and> has_shape iso_shape T2 \<and> utc_second T2 = utc_second T1
            \<and> post_id C < post_id B
          \<longrightarrow> select_by_owner utc_datetime uid s = [B, C, A]))"
proof (intro conjI impI)
  show "listByOwner datetime (Some uid) uid s = Ok_posts (select_by_owner datetime uid s)"
    by (simp add: listByOwner_def)
  show "mset (select_by_owner datetime uid s) = mset (filter (\<lambda>p. user_id p = uid) (posts s))"
    by (simp add: select_by_owner_def)
  show "sorted_wrt (listed_before datetime) (select_by_owner datetime uid s)"
    by (rule sorted_select_by_owner)
next
  assume h: "mset (filter (\<lambda>p. user_id p = uid) (posts s)) = {#A, B, C#}
        \<and> scheduledAt A = None \<and> scheduledAt B = Some T1 \<and> scheduledAt C = Some T2"
    and d: "datetime T2 < datetime T1"
  then have "order_key datetime C < order_key datetime B"
    "order_key datetime B < order_key datetime A"
    by (simp_all add: order_key_def less_prod_def)
  with h show "select_by_owner datetime uid s = [C, B, A]"
    unfolding select_by_owner_def by (intro sort_three) simp_all
next
  assume h: "mset (filter (\<lambda>p. user_id p = uid) (posts s)) = {#A, B, C#}
        \<and> scheduledAt A = None \<and> scheduledAt B = Some T1 \<and> scheduledAt C = Some T2"
    and d: "has_shape iso_shape T1 \<and> has_shape iso_shape T2 \<and> utc_second T2 < utc_second T1"
  from d have "utc_datetime T2 < utc_datetime T1"
    by (simp add: datetime_less(1))
  with h have "order_key utc_datetime C < order_key utc_datetime B"
    "order_key utc_datetime B < order_key utc_datetime A"
    by (simp_all add: order_key_def less_prod_def)
  with h show "select_by_owner utc_datetime uid s = [C, B, A]"
    unfolding select_by_owner_def by (intro sort_three) simp_all
next
  assume h: "mset (filter (\<lambda>p. user_id p = uid) (posts s)) = {#A, B, C#}
        \<and> scheduledAt A = None \<and> scheduledAt B = Some T1 \<and> scheduledAt C = Some T2"
    and d: "has_shape iso_shape T1 \<and> has_shape iso_shape T2 \<and> utc_second T2 = utc_second T1
            \<and> post_id C < post_id B"
  from d have "utc_datetime T2 = utc_datetime T1"
    by (simp add: datetime_less(2))
  with h d have "order_key utc_datetime B < order_key utc_datetime C"
    "order_key utc_datetime C < order_key utc_datetime A"
    by (simp_all add: order_key_def less_prod_def)
  moreover from h have "mset (filter (\<lambda>p. user_id p = uid) (posts s)) = {#A, C, B#}"
    by (simp add: add_mset_commute)
  ultimately show "select_by_owner utc_datetime uid s = [B, C, A]"
    unfolding select_by_owner_def by (intro sort_three) simp_all
qed

theorem listByOwner_order_witness:
  "mset (filter (\<lambda>p. user_id p = 7) (posts example_store)) = {#post_draft, post_later, post_due#}
   \<and> scheduledAt post_draft = None
   \<and> scheduledAt post_later = Some ''2026-06-01T00:00:00.000Z''
   \<and> scheduledAt post_due = Some ''2025-12-31T23:59:59.000Z''
   \<and> utc_datetime ''2025-12-31T23:59:59.000Z'' < utc_datetime ''2026-06-01T00:00:00.000Z''
   \<and> utc_second ''2025-12-31T23:59:59.000Z'' < utc_second ''2026-06-01T00:00:00.000Z''
   \<and> listByOwner utc_datetime (Some 7) 7 example_store
       = Ok_posts [post_due, post_later, post_draft]"
proof -
  have m: "mset (filter (\<lambda>p. user_id p = 7) (posts example_store))
             = {#post_draft, post_later, post_due#}"
    by (simp add: example_store_def post_draft_def post_due_def post_later_def)
  have a: "scheduledAt post_draft = None"
    "scheduledAt post_later = Some ''2026-06-01T00:00:00.000Z''"
    "scheduledAt post_due = Some ''2025-12-31T23:59:59.000Z''"
    by (simp_all add: post_draft_def post_due_def post_later_def)
  have u: "utc_second ''2025-12-31T23:59:59.000Z'' < utc_second ''2026-06-01T00:00:00.000Z''"
    by (simp add: iso_second example_shapes)
       (simp add: iso_shape_def digit_val_def)
  have d: "utc_datetime ''2025-12-31T23:59:59.000Z'' < utc_datetime ''2026-06-01T00:00:00.000Z''"
    by (simp add: iso_datetime example_shapes)
  from listByOwner_order [of utc_datetime 7 example_store post_draft post_later post_due
      "''2026-06-01T00:00:00.000Z''" "''2025-12-31T23:59:59.000Z''"] m a d u example_shapes(1,2)
  show ?thesis by simp
qed

text \<open>
  C5, as stated, fails: \<open>post_early\<close> is scheduled 800 milliseconds before
  \<open>post_late\<close>, within the same second, and is listed after it, since \<open>datetime\<close>
  drops the milliseconds and the newer post comes first.
\<close>

theorem listByOwner_order_counterexample:
  "scheduledAt post_draft = None
   \<and> scheduledAt post_late = Some ''2026-03-01T12:00:00.900Z''
   \<and> scheduledAt post_early = Some ''2026-03-01T12:00:00.100Z''
   \<and> utc_instant ''2026-03-01T12:00:00.100Z'' < utc_instant ''2026-03-01T12:00:00.900Z''
   \<and> select_by_owner utc_datetime 7 (initial\<lparr>posts := [post_draft, post_early, post_late], seq := 5\<rparr>)
       = [post_late, post_early, post_draft]
   \<and> [post_late, post_early, post_draft] \<noteq> [post_early, post_late, post_draft]"
proof -
  have i: "utc_instant ''2026-03-01T12:00:00.100Z'' < utc_instant ''2026-03-01T12:00:00.900Z''"
    by (simp add: utc_instant_def example_shapes)
       (simp add: iso_shape_def digit_val_def)
  have k: "order_key utc_datetime post_late < order_key utc_datetime post_early"
    "order_key utc_datetime post_early < order_key utc_datetime post_draft"
    by (simp_all add: order_key_def less_prod_def post_late_def post_early_def post_draft_def
        iso_datetime example_shapes)
  have m: "mset (filter (\<lambda>p. user_id p = 7)
             (posts (initial\<lparr>posts := [post_draft, post_early, post_late], seq := 5\<rparr>)))
           = {#post_draft, post_early, post_late#}"
    by (simp add: post_late_def post_early_def post_draft_def)
  have "select_by_owner utc_datetime 7 (initial\<lparr>posts := [post_draft, post_early, post_late], seq := 5\<rparr>)
       = [post_late, post_early, post_draft]"
    unfolding select_by_owner_def using m k by (intro sort_three) simp_all
  with i show ?thesis
    by (simp add: post_late_def post_early_def post_draft_def)
qed

end
